theory Spec2Isabelle
  imports Main "HOL-Library.Word"
begin

unbundle bit_operations_syntax

section \<open>Data model of c-args-parser.h\<close>

text \<open>
  The header describes a command tree (\<^verbatim>\<open>cargs_cmd\<close>) whose levels carry option
  descriptors (\<^verbatim>\<open>cargs_opt\<close>) and a positional schema (\<^verbatim>\<open>cargs_pos\<close>).
  C strings are \<open>string\<close>; a pointer that the code tests against \<^verbatim>\<open>NULL\<close> is an
  \<open>option\<close>. Record fields carry a one-letter prefix of their struct
  (\<open>o_\<close>, \<open>p_\<close>, \<open>e_\<close>, \<open>c_\<close>) because several structs share field names.
\<close>

datatype cargs_arg_kind = CARGS_ARG_NONE | CARGS_ARG_REQUIRED | CARGS_ARG_OPTIONAL

definition CARGS_GRP_NONE :: "8 word" where "CARGS_GRP_NONE = 0"
definition CARGS_GRP_XOR :: "8 word" where "CARGS_GRP_XOR = 1"
definition CARGS_GRP_REQ_ONE :: "8 word" where "CARGS_GRP_REQ_ONE = 2"

definition CARGS_OK :: int where "CARGS_OK = 0"
definition CARGS_DONE :: int where "CARGS_DONE = 1"
definition CARGS_ERR_UNKNOWN :: int where "CARGS_ERR_UNKNOWN = - 1"
definition CARGS_ERR_MISSING_VAL :: int where "CARGS_ERR_MISSING_VAL = - 2"
definition CARGS_ERR_BAD_FORMAT :: int where "CARGS_ERR_BAD_FORMAT = - 3"
definition CARGS_ERR_GROUP :: int where "CARGS_ERR_GROUP = - 4"
definition CARGS_ERR_POSITIONAL :: int where "CARGS_ERR_POSITIONAL = - 5"
definition CARGS_ERR_TOO_MANY :: int where "CARGS_ERR_TOO_MANY = - 6"

text \<open>
  An option callback \<^verbatim>\<open>int (*cargs_cb)(const char *value, void *user)\<close> reads the
  value (\<open>None\<close> for \<^verbatim>\<open>NULL\<close>) and the caller's context and returns a status and
  the context as it left it.
\<close>

type_synonym 'u cargs_cb = "string option \<Rightarrow> 'u \<Rightarrow> int \<times> 'u"

record 'u cargs_opt =
  o_long_name :: "string option"
  o_short_name :: char
  o_arg :: cargs_arg_kind
  o_metavar :: "string option"
  o_help :: "string option"
  o_cb :: "'u cargs_cb option"
  o_env :: "string option"
  o_def :: "string option"
  o_group :: "8 word"
  o_group_policy :: "8 word"

definition CARGS_POS_INF :: "16 word" where "CARGS_POS_INF = 65535"

record cargs_pos =
  p_name :: "string option"
  p_desc :: "string option"
  p_min :: "16 word"
  p_max :: "16 word"

text \<open>The output sinks \<^verbatim>\<open>out\<close> and \<^verbatim>\<open>err\<close> of \<^verbatim>\<open>cargs_env\<close> are not state of the model.\<close>

record cargs_env =
  e_prog :: "string option"
  e_version :: "string option"
  e_author :: "string option"
  e_auto_help :: bool
  e_auto_version :: bool
  e_auto_author :: bool
  e_wrap_cols :: int
  e_color :: bool

text \<open>
  \<^verbatim>\<open>opts\<close>/\<^verbatim>\<open>opt_count\<close>, \<^verbatim>\<open>subs\<close>/\<^verbatim>\<open>sub_count\<close>, \<^verbatim>\<open>aliases\<close>/\<^verbatim>\<open>alias_count\<close> and
  \<^verbatim>\<open>pos\<close>/\<^verbatim>\<open>pos_count\<close> are lists; a \<^verbatim>\<open>NULL\<close> array is the empty list. The handler
  \<^verbatim>\<open>run(argc, argv, user)\<close> receives the leftover tokens as a list.
\<close>

datatype 'u cargs_cmd = Cmd
  (c_name: "string option")
  (c_desc: "string option")
  (c_opts: "'u cargs_opt list")
  (c_subs: "'u cargs_cmd list")
  (c_aliases: "string option list")
  (c_pos: "cargs_pos list")
  (c_run: "(string list \<Rightarrow> 'u \<Rightarrow> int \<times> 'u) option")

section \<open>Positional validation\<close>

text \<open>
  The loop of \<^verbatim>\<open>cargs_validate_positional\<close>: \<^verbatim>\<open>sum_min\<close> and \<^verbatim>\<open>sum_max\<close> are
  \<^verbatim>\<open>unsigned\<close> (32 bit, wrapping), the segment bounds are \<^verbatim>\<open>uint16_t\<close>.
\<close>

fun pos_sums :: "cargs_pos list \<Rightarrow> 32 word \<times> 32 word \<times> bool \<Rightarrow> 32 word \<times> 32 word \<times> bool" where
  "pos_sums [] acc = acc"
| "pos_sums (p # ps) (sum_min, sum_max, has_inf) =
     (if p_max p = CARGS_POS_INF
      then pos_sums ps (sum_min + ucast (p_min p), sum_max, True)
      else pos_sums ps (sum_min + ucast (p_min p), sum_max + ucast (p_max p), has_inf))"

text \<open>
  \<^verbatim>\<open>argc\<close> is compared with \<^verbatim>\<open>(int)sum_min\<close> and \<^verbatim>\<open>(int)sum_max\<close>, the sums read as
  two's complement. The diagnostics written to the error sink are left out; the
  result is the return code.
\<close>

definition cargs_validate_positional :: "'u cargs_cmd option \<Rightarrow> int \<Rightarrow> int" where
  "cargs_validate_positional cmd argc =
     (case cmd of
        None \<Rightarrow> CARGS_OK
      | Some c \<Rightarrow>
          if c_pos c = [] then CARGS_OK
          else
            (case pos_sums (c_pos c) (0, 0, False) of
               (sum_min, sum_max, has_inf) \<Rightarrow>
                 if argc < sint sum_min then CARGS_ERR_POSITIONAL
                 else if \<not> has_inf \<and> argc > sint sum_max then CARGS_ERR_TOO_MANY
                 else CARGS_OK))"

text \<open>The sums of the claim, over the naturals.\<close>

definition schema_sum_min :: "cargs_pos list \<Rightarrow> nat" where
  "schema_sum_min ps = sum_list (map (\<lambda>p. unat (p_min p)) ps)"

definition schema_unbounded :: "cargs_pos list \<Rightarrow> bool" where
  "schema_unbounded ps = list_ex (\<lambda>p. p_max p = CARGS_POS_INF) ps"

definition schema_sum_max :: "cargs_pos list \<Rightarrow> nat" where
  "schema_sum_max ps = sum_list (map (\<lambda>p. unat (p_max p)) (filter (\<lambda>p. p_max p \<noteq> CARGS_POS_INF) ps))"


section \<open>Effects: the caller's context and the observable calls\<close>

text \<open>
  The engine has no state of its own. What a call does is a change of the caller's
  context (through the callbacks and the handler) and a sequence of calls and builtin
  outputs, recorded here in the order in which the code makes them. A callback call
  is recorded with the long and short name of its option and the value passed, a
  handler call with the name of its command and the tokens passed.
\<close>

datatype event =
    CallCb "string option" char "string option"
  | CallRun "string option" "string list"
  | PrintHelp "string list"
  | PrintVersion string
  | PrintAuthor string

record 'u world =
  user :: 'u
  events :: "event list"

definition emit :: "event \<Rightarrow> 'u world \<Rightarrow> 'u world" where
  "emit ev w = w\<lparr>events := events w @ [ev]\<rparr>"

text \<open>\<^verbatim>\<open>o->cb ? o->cb(val, user) : CARGS_OK\<close>\<close>

definition invoke_cb :: "'u cargs_opt \<Rightarrow> string option \<Rightarrow> 'u world \<Rightarrow> int \<times> 'u world" where
  "invoke_cb opt val w =
     (case o_cb opt of
        None \<Rightarrow> (CARGS_OK, w)
      | Some f \<Rightarrow>
          (case f val (user w) of
             (rc, u') \<Rightarrow> (rc, emit (CallCb (o_long_name opt) (o_short_name opt) val) (w\<lparr>user := u'\<rparr>))))"

section \<open>Lookup helpers\<close>

text \<open>Reading \<^verbatim>\<open>s[i]\<close> of a C string: the terminating NUL sits at index \<open>length s\<close>.\<close>

definition cstr_at :: "string \<Rightarrow> nat \<Rightarrow> char" where
  "cstr_at s i = (if i < length s then s ! i else CHR 0x00)"

definition isdigit :: "char \<Rightarrow> bool" where
  "isdigit c = (c \<in> set ''0123456789'')"

fun cargs_find_long :: "'u cargs_opt list \<Rightarrow> string \<Rightarrow> 'u cargs_opt option" where
  "cargs_find_long [] name = None"
| "cargs_find_long (opt # opts) name =
     (if o_long_name opt = Some name then Some opt else cargs_find_long opts name)"

fun find_short_loop :: "'u cargs_opt list \<Rightarrow> char \<Rightarrow> 'u cargs_opt option" where
  "find_short_loop [] c = None"
| "find_short_loop (opt # opts) c =
     (if o_short_name opt = c then Some opt else find_short_loop opts c)"

definition cargs_find_short :: "'u cargs_opt list \<Rightarrow> char \<Rightarrow> 'u cargs_opt option" where
  "cargs_find_short opts c = (if c = CHR 0x00 then None else find_short_loop opts c)"

text \<open>The tokens passed to \<^verbatim>\<open>cargs_token_looks_numeric\<close> are entries of \<^verbatim>\<open>argv\<close>, never \<^verbatim>\<open>NULL\<close>.\<close>

definition cargs_token_looks_numeric :: "string \<Rightarrow> bool" where
  "cargs_token_looks_numeric s =
     (if s = [] then False
      else if cstr_at s 0 = CHR ''+'' \<or> cstr_at s 0 = CHR ''-'' then
        (if isdigit (cstr_at s 1) then True
         else if cstr_at s 1 = CHR ''.'' \<and> isdigit (cstr_at s 2) then True
         else if cstr_at s 1 = CHR ''0'' \<and> (cstr_at s 2 = CHR ''x'' \<or> cstr_at s 2 = CHR ''X'') then True
         else False)
      else isdigit (cstr_at s 0))"

text \<open>
  \<^verbatim>\<open>cargs_find_sub\<close>: the first child whose name or one of whose own aliases equals
  the token.
\<close>

fun find_sub_loop :: "'u cargs_cmd list \<Rightarrow> string \<Rightarrow> 'u cargs_cmd option" where
  "find_sub_loop [] name = None"
| "find_sub_loop (c # cs) name =
     (if c_name c = Some name then Some c
      else if list_ex (\<lambda>a. a = Some name) (c_aliases c) then Some c
      else find_sub_loop cs name)"

definition cargs_find_sub :: "'u cargs_cmd option \<Rightarrow> string \<Rightarrow> 'u cargs_cmd option" where
  "cargs_find_sub cmd name = (case cmd of None \<Rightarrow> None | Some c \<Rightarrow> find_sub_loop (c_subs c) name)"

section \<open>Group counters and masks\<close>

text \<open>
  \<^verbatim>\<open>uint8_t counts[MAXG]\<close> with \<^verbatim>\<open>MAXG = 33\<close>; \<^verbatim>\<open>counts[o->group]++\<close> under the guard
  \<^verbatim>\<open>o->group && o->group < len\<close>.
\<close>

definition MAXG :: nat where "MAXG = 33"

definition count_group :: "'u cargs_opt \<Rightarrow> nat \<Rightarrow> 8 word list \<Rightarrow> 8 word list" where
  "count_group opt len counts =
     (if o_group opt \<noteq> 0 \<and> unat (o_group opt) < len
      then counts[unat (o_group opt) := counts ! unat (o_group opt) + 1]
      else counts)"

text \<open>
  \<^verbatim>\<open>uint32_t xor_mask, req_mask\<close>; \<^verbatim>\<open>xor_mask |= (1ull << o->group)\<close> computes in 64 bits
  and stores the low 32 bits.
\<close>

fun group_masks :: "'u cargs_opt list \<Rightarrow> 32 word \<times> 32 word \<Rightarrow> 32 word \<times> 32 word" where
  "group_masks [] m = m"
| "group_masks (opt # opts) (xor_mask, req_mask) =
     (if 0 < o_group opt \<and> unat (o_group opt) < MAXG then
        group_masks opts
          (if o_group_policy opt = CARGS_GRP_XOR
           then ucast ((ucast xor_mask :: 64 word) OR push_bit (unat (o_group opt)) 1)
           else xor_mask,
           if o_group_policy opt = CARGS_GRP_REQ_ONE
           then ucast ((ucast req_mask :: 64 word) OR push_bit (unat (o_group opt)) 1)
           else req_mask)
      else group_masks opts (xor_mask, req_mask))"

text \<open>The loop \<^verbatim>\<open>for (uint8_t g = 1; g < MAXG; g++)\<close>, over the list of its indices.\<close>

fun enforce_groups :: "32 word \<Rightarrow> 32 word \<Rightarrow> 8 word list \<Rightarrow> nat list \<Rightarrow> int" where
  "enforce_groups xor_mask req_mask counts [] = CARGS_OK"
| "enforce_groups xor_mask req_mask counts (g # gs) =
     (if (ucast xor_mask :: 64 word) AND push_bit g 1 \<noteq> 0 \<and> 1 < counts ! g
      then CARGS_ERR_GROUP
      else if (ucast req_mask :: 64 word) AND push_bit g 1 \<noteq> 0 \<and> counts ! g \<noteq> 1
      then CARGS_ERR_GROUP
      else enforce_groups xor_mask req_mask counts gs)"

section \<open>Environment and default overlay\<close>

text \<open>
  \<^verbatim>\<open>getenv\<close> is the process environment, a parameter of the model. The status returned
  by a callback is dropped here, as in the source.
\<close>

fun env_defaults_loop ::
  "(string \<Rightarrow> string option) \<Rightarrow> 'u cargs_opt list \<Rightarrow> nat \<Rightarrow> 'u world \<Rightarrow> 8 word list
    \<Rightarrow> 'u world \<times> 8 word list" where
  "env_defaults_loop getenv [] len w counts = (w, counts)"
| "env_defaults_loop getenv (opt # opts) len w counts =
     (let val0 = (case o_env opt of None \<Rightarrow> None | Some e \<Rightarrow> getenv e);
          val = (if val0 = None \<and> o_def opt \<noteq> None then o_def opt else val0)
      in if val \<noteq> None \<and> o_cb opt \<noteq> None
         then env_defaults_loop getenv opts len (snd (invoke_cb opt val w)) (count_group opt len counts)
         else env_defaults_loop getenv opts len w counts)"

definition cargs_apply_env_defaults_level ::
  "(string \<Rightarrow> string option) \<Rightarrow> 'u cargs_cmd option \<Rightarrow> 'u world \<Rightarrow> 8 word list \<Rightarrow> nat
    \<Rightarrow> 'u world \<times> 8 word list" where
  "cargs_apply_env_defaults_level getenv cmd w group_counts group_counts_len =
     (case cmd of
        None \<Rightarrow> (w, group_counts)
      | Some c \<Rightarrow> env_defaults_loop getenv (c_opts c) group_counts_len w group_counts)"


section \<open>The level parser\<close>

text \<open>
  One pass of the token loop of \<^verbatim>\<open>cargs_parse_opts_level\<close> ends in one of three ways:
  \<^verbatim>\<open>return rc\<close> with a negative code (\<open>Abort\<close>, \<^verbatim>\<open>*idx\<close> untouched), a builtin that
  printed and returns \<^verbatim>\<open>CARGS_DONE\<close> (\<open>Intercepted\<close>, \<^verbatim>\<open>*idx = argc\<close>), or the loop goes
  on, or is left, at an index with the counters so far (\<open>Next\<close>).
  \<^verbatim>\<open>argv\<close> is the list of its \<^verbatim>\<open>argc\<close> tokens, each a non-null string; \<^verbatim>\<open>depth\<close> is the
  length of \<^verbatim>\<open>path\<close>, and \<^verbatim>\<open>prog\<close> is used by the help printer only.
\<close>

datatype 'u scan =
    Abort int "'u world"
  | Intercepted "'u world"
  | Next int "'u world" "8 word list"

text \<open>
  The three lines that follow the value resolution in both option forms:
  \<^verbatim>\<open>rc = o->cb ? o->cb(val, user) : CARGS_OK; if (rc < 0) return rc;
  if (o->group && o->group < MAXG) counts[o->group]++;\<close>
\<close>

definition apply_opt :: "'u cargs_opt \<Rightarrow> string option \<Rightarrow> int \<Rightarrow> 'u world \<Rightarrow> 8 word list \<Rightarrow> 'u scan" where
  "apply_opt opt val i w counts =
     (case invoke_cb opt val w of
        (rc, w') \<Rightarrow> if rc < 0 then Abort rc w' else Next i w' (count_group opt MAXG counts))"

definition cmd_opts :: "'u cargs_cmd option \<Rightarrow> 'u cargs_opt list" where
  "cmd_opts cmd = (case cmd of None \<Rightarrow> [] | Some c \<Rightarrow> c_opts c)"

definition env_flag :: "cargs_env option \<Rightarrow> (cargs_env \<Rightarrow> bool) \<Rightarrow> bool" where
  "env_flag env f = (case env of None \<Rightarrow> False | Some e \<Rightarrow> f e)"

text \<open>
  The branch \<^verbatim>\<open>arg[1] == '-'\<close>: a long option at \<^verbatim>\<open>argv[i]\<close>. The name is split at the
  first \<^verbatim>\<open>=\<close> (\<^verbatim>\<open>strchr\<close>), and copied into \<^verbatim>\<open>namebuf[96]\<close> when there is one.
\<close>

definition long_opt ::
  "cargs_env option \<Rightarrow> 'u cargs_cmd option \<Rightarrow> int \<Rightarrow> string list \<Rightarrow> bool \<Rightarrow> bool \<Rightarrow> string list
    \<Rightarrow> int \<Rightarrow> 'u world \<Rightarrow> 8 word list \<Rightarrow> 'u scan" where
  "long_opt env cmd argc argv allow_version allow_author path i w counts =
     (let arg = argv ! nat i;
          name0 = drop 2 arg;
          eq = (CHR ''='' \<in> set name0);
          name = takeWhile (\<lambda>c. c \<noteq> CHR ''='') name0;
          val = (if eq then Some (tl (dropWhile (\<lambda>c. c \<noteq> CHR ''='') name0)) else None)
      in
        if eq \<and> 96 \<le> length name then Abort CARGS_ERR_BAD_FORMAT w
        else if env_flag env e_auto_help \<and> name = ''help''
        then Intercepted (emit (PrintHelp path) w)
        else if allow_version \<and> env_flag env e_auto_version \<and> name = ''version''
                \<and> env_flag env (\<lambda>e. e_version e \<noteq> None)
        then Intercepted (emit (PrintVersion (the (e_version (the env)))) w)
        else if allow_author \<and> env_flag env e_auto_author \<and> name = ''author''
                \<and> env_flag env (\<lambda>e. e_author e \<noteq> None)
        then Intercepted (emit (PrintAuthor (the (e_author (the env)))) w)
        else
          (case cargs_find_long (cmd_opts cmd) name of
             None \<Rightarrow> Abort CARGS_ERR_UNKNOWN w
           | Some opt \<Rightarrow>
               (case o_arg opt of
                  CARGS_ARG_REQUIRED \<Rightarrow>
                    (if val = None then
                       (if i + 1 < argc
                        then apply_opt opt (Some (argv ! nat (i + 1))) (i + 1 + 1) w counts
                        else Abort CARGS_ERR_MISSING_VAL w)
                     else apply_opt opt val (i + 1) w counts)
                | CARGS_ARG_OPTIONAL \<Rightarrow>
                    (if val = None \<and> i + 1 < argc
                        \<and> argv ! nat (i + 1) \<noteq> ''--''
                        \<and> (cstr_at (argv ! nat (i + 1)) 0 \<noteq> CHR ''-''
                             \<or> cargs_token_looks_numeric (argv ! nat (i + 1)))
                     then apply_opt opt (Some (argv ! nat (i + 1))) (i + 1 + 1) w counts
                     else apply_opt opt val (i + 1) w counts)
                | CARGS_ARG_NONE \<Rightarrow>
                    (if val \<noteq> None then Abort CARGS_ERR_BAD_FORMAT w
                     else apply_opt opt val (i + 1) w counts))))"

text \<open>
  The inner loop \<^verbatim>\<open>while (*p)\<close> over the characters of a short cluster; \<open>i\<close> is already
  the index of the token after the cluster. An attached value takes the rest of the
  token (\<^verbatim>\<open>p += strlen(p)\<close>), so the loop goes on with the empty rest.
\<close>

fun short_opts ::
  "cargs_env option \<Rightarrow> 'u cargs_cmd option \<Rightarrow> int \<Rightarrow> string list \<Rightarrow> bool \<Rightarrow> string list
    \<Rightarrow> string \<Rightarrow> int \<Rightarrow> 'u world \<Rightarrow> 8 word list \<Rightarrow> 'u scan" where
  "short_opts env cmd argc argv allow_version path [] i w counts = Next i w counts"
| "short_opts env cmd argc argv allow_version path (c # p) i w counts =
     (if env_flag env e_auto_help \<and> c = CHR ''h''
      then Intercepted (emit (PrintHelp path) w)
      else if allow_version \<and> env_flag env e_auto_version \<and> c = CHR ''v''
              \<and> env_flag env (\<lambda>e. e_version e \<noteq> None)
      then Intercepted (emit (PrintVersion (the (e_version (the env)))) w)
      else
        (case cargs_find_short (cmd_opts cmd) c of
           None \<Rightarrow> Abort CARGS_ERR_UNKNOWN w
         | Some opt \<Rightarrow>
             (case o_arg opt of
                CARGS_ARG_REQUIRED \<Rightarrow>
                  (if p \<noteq> [] then
                     (case apply_opt opt (Some p) i w counts of
                        Next i' w' counts' \<Rightarrow>
                          short_opts env cmd argc argv allow_version path [] i' w' counts'
                      | r \<Rightarrow> r)
                   else if i < argc then
                     (case apply_opt opt (Some (argv ! nat i)) (i + 1) w counts of
                        Next i' w' counts' \<Rightarrow>
                          short_opts env cmd argc argv allow_version path p i' w' counts'
                      | r \<Rightarrow> r)
                   else Abort CARGS_ERR_MISSING_VAL w)
              | CARGS_ARG_OPTIONAL \<Rightarrow>
                  (if p \<noteq> [] then
                     (case apply_opt opt (Some p) i w counts of
                        Next i' w' counts' \<Rightarrow>
                          short_opts env cmd argc argv allow_version path [] i' w' counts'
                      | r \<Rightarrow> r)
                   else if i < argc \<and> argv ! nat i \<noteq> ''--''
                           \<and> (cstr_at (argv ! nat i) 0 \<noteq> CHR ''-''
                                \<or> cargs_token_looks_numeric (argv ! nat i))
                   then
                     (case apply_opt opt (Some (argv ! nat i)) (i + 1) w counts of
                        Next i' w' counts' \<Rightarrow>
                          short_opts env cmd argc argv allow_version path p i' w' counts'
                      | r \<Rightarrow> r)
                   else
                     (case apply_opt opt None i w counts of
                        Next i' w' counts' \<Rightarrow>
                          short_opts env cmd argc argv allow_version path p i' w' counts'
                      | r \<Rightarrow> r))
              | CARGS_ARG_NONE \<Rightarrow>
                  (case apply_opt opt None i w counts of
                     Next i' w' counts' \<Rightarrow>
                       short_opts env cmd argc argv allow_version path p i' w' counts'
                   | r \<Rightarrow> r))))"


text \<open>The index only moves forward, which bounds the token loop.\<close>

lemma apply_opt_Next:
  "apply_opt opt val i w counts = Next i' w' counts' \<Longrightarrow> i' = i"
  by (auto simp: apply_opt_def split: prod.splits if_splits)

lemma long_opt_Next:
  "long_opt env cmd argc argv allow_version allow_author path i w counts = Next i' w' counts'
    \<Longrightarrow> i < i'"
  by (auto simp: long_opt_def Let_def dest!: apply_opt_Next
           split: if_splits option.splits cargs_arg_kind.splits)

lemma short_opts_Next:
  "short_opts env cmd argc argv allow_version path p i w counts = Next i' w' counts'
    \<Longrightarrow> i \<le> i'"
proof (induction p arbitrary: i w counts)
  case Nil
  then show ?case by simp
next
  case (Cons c p)
  then show ?case
    by (fastforce simp: Let_def dest: apply_opt_Next
           split: if_splits option.splits cargs_arg_kind.splits scan.splits)
qed

text \<open>
  The loop \<^verbatim>\<open>while (i < argc)\<close>: a token that does not start with \<^verbatim>\<open>-\<close> ends it unconsumed,
  the token \<^verbatim>\<open>--\<close> ends it consumed, \<^verbatim>\<open>arg[1] == '-'\<close> selects the long form, anything
  else the short cluster \<^verbatim>\<open>arg + 1\<close>.
\<close>

function cargs_scan ::
  "cargs_env option \<Rightarrow> 'u cargs_cmd option \<Rightarrow> int \<Rightarrow> string list \<Rightarrow> bool \<Rightarrow> bool \<Rightarrow> string list
    \<Rightarrow> int \<Rightarrow> 'u world \<Rightarrow> 8 word list \<Rightarrow> 'u scan" where
  "cargs_scan env cmd argc argv allow_version allow_author path i w counts =
     (if i < argc then
        (if cstr_at (argv ! nat i) 0 \<noteq> CHR ''-'' then Next i w counts
         else if argv ! nat i = ''--'' then Next (i + 1) w counts
         else if cstr_at (argv ! nat i) 1 = CHR ''-'' then
           (case long_opt env cmd argc argv allow_version allow_author path i w counts of
              Next i' w' counts' \<Rightarrow>
                cargs_scan env cmd argc argv allow_version allow_author path i' w' counts'
            | r \<Rightarrow> r)
         else
           (case short_opts env cmd argc argv allow_version path (drop 1 (argv ! nat i)) (i + 1) w counts of
              Next i' w' counts' \<Rightarrow>
                cargs_scan env cmd argc argv allow_version allow_author path i' w' counts'
            | r \<Rightarrow> r))
      else Next i w counts)"
  by pat_completeness auto
termination
  by (relation "measure (\<lambda>(env, cmd, argc, argv, av, aa, path, i, w, counts). nat (argc - i))")
     (auto dest: long_opt_Next short_opts_Next)

declare cargs_scan.simps [simp del]

text \<open>
  \<^verbatim>\<open>cargs_parse_opts_level\<close> returns the code, the value left in \<^verbatim>\<open>*idx\<close> and the world.
  The counters start at zero, the masks are collected from the level's options, the
  overlay runs, then the token loop, then the group check.
\<close>

definition cargs_parse_opts_level ::
  "(string \<Rightarrow> string option) \<Rightarrow> cargs_env option \<Rightarrow> 'u cargs_cmd option \<Rightarrow> int \<Rightarrow> string list
    \<Rightarrow> int \<Rightarrow> 'u world \<Rightarrow> bool \<Rightarrow> bool \<Rightarrow> string list \<Rightarrow> int \<times> int \<times> 'u world" where
  "cargs_parse_opts_level getenv env cmd argc argv idx w allow_version allow_author path =
     (case group_masks (cmd_opts cmd) (0, 0) of
        (xor_mask, req_mask) \<Rightarrow>
          (case cargs_apply_env_defaults_level getenv cmd w (replicate MAXG 0) MAXG of
             (w1, counts1) \<Rightarrow>
               (case cargs_scan env cmd argc argv allow_version allow_author path idx w1 counts1 of
                  Abort rc w' \<Rightarrow> (rc, idx, w')
                | Intercepted w' \<Rightarrow> (CARGS_DONE, argc, w')
                | Next i w' counts \<Rightarrow>
                    (if enforce_groups xor_mask req_mask counts [1..<MAXG] < 0
                     then (CARGS_ERR_GROUP, idx, w')
                     else (CARGS_OK, i, w')))))"

section \<open>The dispatcher\<close>

lemma find_sub_loop_mem: "find_sub_loop cs name = Some c \<Longrightarrow> c \<in> set cs"
  by (induction cs) (auto split: if_splits)

lemma sub_size: "c \<in> set (c_subs cmd) \<Longrightarrow> size c < size cmd"
  by (cases cmd) (auto dest: size_list_estimation' [where f = size] simp: less_Suc_eq_le)

text \<open>
  What follows the loop of \<^verbatim>\<open>cargs_dispatch\<close>: validate the leftover count, then run the
  handler on the leftover tokens, or print help when there is none.
\<close>

definition dispatch_leaf ::
  "'u cargs_cmd \<Rightarrow> int \<Rightarrow> string list \<Rightarrow> int \<Rightarrow> string list \<Rightarrow> 'u world \<Rightarrow> int \<times> 'u world" where
  "dispatch_leaf cmd argc argv i path w =
     (let pos_rc = cargs_validate_positional (Some cmd) (argc - i) in
      if pos_rc < 0 then (pos_rc, w)
      else
        (case c_run cmd of
           Some run \<Rightarrow>
             (case run (take (nat (argc - i)) (drop (nat i) argv)) (user w) of
                (rc, u') \<Rightarrow>
                  (rc, emit (CallRun (c_name cmd) (take (nat (argc - i)) (drop (nat i) argv)))
                         (w\<lparr>user := u'\<rparr>)))
         | None \<Rightarrow> (CARGS_OK, emit (PrintHelp path) w)))"

text \<open>
  The loop \<^verbatim>\<open>while (1)\<close>. \<^verbatim>\<open>path\<close> holds at most 16 names and \<^verbatim>\<open>depth\<close> is its length, so
  \<^verbatim>\<open>depth == 0\<close> is \<open>path = []\<close>. Each descent moves to a child of the current node.
\<close>

function dispatch_loop ::
  "(string \<Rightarrow> string option) \<Rightarrow> cargs_env option \<Rightarrow> 'u cargs_cmd \<Rightarrow> int \<Rightarrow> string list \<Rightarrow> int
    \<Rightarrow> string list \<Rightarrow> 'u world \<Rightarrow> int \<times> 'u world" where
  "dispatch_loop getenv env cmd argc argv i path w =
     (case cargs_parse_opts_level getenv env (Some cmd) argc argv i w (path = []) (path = []) path of
        (rc, i', w') \<Rightarrow>
          if rc = CARGS_DONE then (CARGS_OK, w')
          else if rc < 0 then (rc, w')
          else if argc \<le> i' then dispatch_leaf cmd argc argv i' path w'
          else if cstr_at (argv ! nat i') 0 = CHR ''-'' then dispatch_leaf cmd argc argv i' path w'
          else
            (case cargs_find_sub (Some cmd) (argv ! nat i') of
               None \<Rightarrow> dispatch_leaf cmd argc argv i' path w'
             | Some sub \<Rightarrow>
                 dispatch_loop getenv env sub argc argv (i' + 1)
                   (if length path < 16 then path @ [argv ! nat i'] else path) w'))"
  by pat_completeness auto
termination
  by (relation "measure (\<lambda>(getenv, env, cmd, argc, argv, i, path, w). size cmd)")
     (auto simp: cargs_find_sub_def dest!: find_sub_loop_mem sub_size)

declare dispatch_loop.simps [simp del]

definition cargs_dispatch ::
  "(string \<Rightarrow> string option) \<Rightarrow> cargs_env option \<Rightarrow> 'u cargs_cmd option \<Rightarrow> int
    \<Rightarrow> string list option \<Rightarrow> 'u world \<Rightarrow> int \<times> 'u world" where
  "cargs_dispatch getenv env root argc argv w =
     (case root of
        None \<Rightarrow> (CARGS_ERR_BAD_FORMAT, w)
      | Some r \<Rightarrow>
          (case argv of
             None \<Rightarrow> (CARGS_ERR_BAD_FORMAT, w)
           | Some av \<Rightarrow>
               if argc \<le> 0 then (CARGS_ERR_BAD_FORMAT, w)
               else dispatch_loop getenv env r argc av 1 [] w))"


section \<open>Typed converters: byte sizes\<close>

text \<open>
  \<^verbatim>\<open>double\<close> is IEEE 754 binary64: a finite value is \<open>m * 2 ^ e\<close> for integers \<open>m\<close> and \<open>e\<close>
  (written \<open>Fin m e\<close>), and there are the two infinities and NaN. The sign of zero is not
  kept: no operation used by the size parser tells the two zeros apart.
\<close>

datatype dbl = Fin int int | PInf | NInf | NaN

text \<open>The number of binary digits of a positive integer.\<close>

function bit_length :: "int \<Rightarrow> int" where
  "bit_length n = (if n \<le> 0 then 0 else 1 + bit_length (n div 2))"
  by pat_completeness auto
termination
  by (relation "measure nat") auto

declare bit_length.simps [simp del]

text \<open>\<open>a / 2 ^ k\<close> rounded to the nearest integer, a tie to the even one.\<close>

definition round_shift :: "int \<Rightarrow> nat \<Rightarrow> int" where
  "round_shift a k =
     (if 2 * (a mod 2 ^ k) < 2 ^ k then a div 2 ^ k
      else if 2 ^ k < 2 * (a mod 2 ^ k) then a div 2 ^ k + 1
      else if even (a div 2 ^ k) then a div 2 ^ k else a div 2 ^ k + 1)"

text \<open>A magnitude of \<open>2 ^ 1024\<close> or more overflows to an infinity.\<close>

definition float_range :: "int \<Rightarrow> int \<Rightarrow> dbl" where
  "float_range m e =
     (if 1024 < bit_length \<bar>m\<bar> + e then (if 0 < m then PInf else NInf) else Fin m e)"

text \<open>
  Rounding to nearest, ties to even, of the exact value \<open>m * 2 ^ e\<close>: the result keeps at
  most 53 binary digits and no exponent below \<open>-1074\<close>.
\<close>

definition float_norm :: "int \<Rightarrow> int \<Rightarrow> dbl" where
  "float_norm m e =
     (let k = max (bit_length \<bar>m\<bar> - 53) (- 1074 - e)
      in if k \<le> 0 then float_range m e
         else float_range (sgn m * round_shift \<bar>m\<bar> (nat k)) (e + k))"

text \<open>The conversion \<^verbatim>\<open>(double)n\<close> of an integer.\<close>

definition double_of_int :: "int \<Rightarrow> dbl" where
  "double_of_int n = float_norm n 0"

text \<open>Product, sum and \<^verbatim>\<open><\<close> of doubles: the exact result, rounded.\<close>

fun dmul :: "dbl \<Rightarrow> dbl \<Rightarrow> dbl" where
  "dmul (Fin m1 e1) (Fin m2 e2) = float_norm (m1 * m2) (e1 + e2)"
| "dmul NaN y = NaN"
| "dmul x NaN = NaN"
| "dmul (Fin m e) PInf = (if 0 < m then PInf else if m < 0 then NInf else NaN)"
| "dmul (Fin m e) NInf = (if 0 < m then NInf else if m < 0 then PInf else NaN)"
| "dmul PInf (Fin m e) = (if 0 < m then PInf else if m < 0 then NInf else NaN)"
| "dmul NInf (Fin m e) = (if 0 < m then NInf else if m < 0 then PInf else NaN)"
| "dmul PInf PInf = PInf"
| "dmul NInf NInf = PInf"
| "dmul PInf NInf = NInf"
| "dmul NInf PInf = NInf"

fun dadd :: "dbl \<Rightarrow> dbl \<Rightarrow> dbl" where
  "dadd (Fin m1 e1) (Fin m2 e2) =
     float_norm (m1 * 2 ^ nat (e1 - min e1 e2) + m2 * 2 ^ nat (e2 - min e1 e2)) (min e1 e2)"
| "dadd NaN y = NaN"
| "dadd x NaN = NaN"
| "dadd PInf NInf = NaN"
| "dadd NInf PInf = NaN"
| "dadd PInf y = PInf"
| "dadd NInf y = NInf"
| "dadd x PInf = PInf"
| "dadd x NInf = NInf"

fun dless :: "dbl \<Rightarrow> dbl \<Rightarrow> bool" where
  "dless (Fin m1 e1) (Fin m2 e2) =
     (m1 * 2 ^ nat (e1 - min e1 e2) < m2 * 2 ^ nat (e2 - min e1 e2))"
| "dless NaN y = False"
| "dless x NaN = False"
| "dless NInf NInf = False"
| "dless NInf y = True"
| "dless x NInf = False"
| "dless PInf y = False"
| "dless x PInf = True"

text \<open>
  The conversion \<^verbatim>\<open>(uint64_t)x\<close> truncates towards zero; C leaves it undefined (\<open>None\<close>) when
  the truncated value does not fit, and for infinities and NaN.
\<close>

fun u64_of_double :: "dbl \<Rightarrow> 64 word option" where
  "u64_of_double (Fin m e) =
     (let t = (if 0 \<le> e then m * 2 ^ nat e else sgn m * (\<bar>m\<bar> div 2 ^ nat (- e)))
      in if 0 \<le> t \<and> t < 2 ^ 64 then Some (word_of_int t) else None)"
| "u64_of_double x = None"


text \<open>
  \<^verbatim>\<open>cargs_read_size\<close> returns \<^verbatim>\<open>-1\<close> (\<open>SizeFail\<close>) or returns 0 with the byte count stored in
  \<^verbatim>\<open>*out\<close> (\<open>SizeOk\<close>); \<open>SizeUndefined\<close> is the case in which its final conversion has no
  defined result.
\<close>

datatype size_result = SizeFail | SizeOk "64 word" | SizeUndefined

text \<open>\<^verbatim>\<open>toupper\<close> in the C locale.\<close>

definition toupper :: "char \<Rightarrow> char" where
  "toupper c =
     (case map_of (zip ''abcdefghijklmnopqrstuvwxyz'' ''ABCDEFGHIJKLMNOPQRSTUVWXYZ'') c of
        None \<Rightarrow> c
      | Some u \<Rightarrow> u)"

text \<open>The characters skipped by \<^verbatim>\<open>while (*end == ' ' || *end == '\\t') end++\<close>.\<close>

definition is_blank :: "char \<Rightarrow> bool" where
  "is_blank c = (c = CHR '' '' \<or> c = CHR 0x09)"

text \<open>
  The end of \<^verbatim>\<open>cargs_read_size\<close>: the range check against \<^verbatim>\<open>0.0\<close> and \<^verbatim>\<open>(double)UINT64_MAX\<close>,
  then \<^verbatim>\<open>(uint64_t)(bytes + 0.5)\<close>.
\<close>

definition size_finish :: "dbl \<Rightarrow> size_result" where
  "size_finish bytes =
     (if dless bytes (Fin 0 0) \<or> dless (double_of_int (2 ^ 64 - 1)) bytes then SizeFail
      else
        (case u64_of_double (dadd bytes (Fin 1 (- 1))) of
           None \<Rightarrow> SizeUndefined
         | Some n \<Rightarrow> SizeOk n))"

text \<open>
  The advance of \<^verbatim>\<open>end\<close> that the cases \<^verbatim>\<open>K\<close> to \<^verbatim>\<open>E\<close> of the switch share, from the upper-cased
  second and third character.
\<close>

definition unit_step :: "char \<Rightarrow> char \<Rightarrow> nat" where
  "unit_step b c =
     (if b = CHR ''I'' \<and> (c = CHR ''B'' \<or> c = CHR 0x00)
      then (if c = CHR ''B'' then 3 else 2)
      else (if b = CHR ''B'' then 2 else 1))"

text \<open>
  The switch on the upper-cased first character \<open>a\<close>: the multiplier, written as the
  products of \<^verbatim>\<open>k2 = 1024.0\<close> and \<^verbatim>\<open>k10 = 1000.0\<close> of the source, and the advance of
  \<^verbatim>\<open>end\<close>; \<open>None\<close> is the \<^verbatim>\<open>default\<close> case.
\<close>

definition size_unit :: "bool \<Rightarrow> char \<Rightarrow> char \<Rightarrow> char \<Rightarrow> (dbl \<times> nat) option" where
  "size_unit prefer_iec a b c =
     (let k10 = Fin 1000 0; k2 = Fin 1024 0 in
      if a = CHR ''B'' then Some (Fin 1 0, 1)
      else if a = CHR ''K'' then
        Some (if b = CHR ''I'' then k2 else (if prefer_iec then k2 else k10), unit_step b c)
      else if a = CHR ''M'' then
        Some (if b = CHR ''I'' then dmul k2 k2
              else (if prefer_iec then dmul k2 k2 else dmul k10 k10), unit_step b c)
      else if a = CHR ''G'' then
        Some (if b = CHR ''I'' then dmul (dmul k2 k2) k2
              else (if prefer_iec then dmul (dmul k2 k2) k2 else dmul (dmul k10 k10) k10),
              unit_step b c)
      else if a = CHR ''T'' then
        Some (if b = CHR ''I'' then dmul (dmul (dmul k2 k2) k2) k2
              else (if prefer_iec then dmul (dmul (dmul k2 k2) k2) k2
                    else dmul (dmul (dmul k10 k10) k10) k10),
              unit_step b c)
      else if a = CHR ''P'' then
        Some (if b = CHR ''I'' then dmul (dmul (dmul (dmul k2 k2) k2) k2) k2
              else (if prefer_iec then dmul (dmul (dmul (dmul k2 k2) k2) k2) k2
                    else dmul (dmul (dmul (dmul k10 k10) k10) k10) k10),
              unit_step b c)
      else if a = CHR ''E'' then
        Some (if b = CHR ''I'' then dmul (dmul (dmul (dmul (dmul k2 k2) k2) k2) k2) k2
              else (if prefer_iec then dmul (dmul (dmul (dmul (dmul k2 k2) k2) k2) k2) k2
                    else dmul (dmul (dmul (dmul (dmul k10 k10) k10) k10) k10) k10),
              unit_step b c)
      else None)"

text \<open>
  \<^verbatim>\<open>strtod\<close> belongs to the C library and is a parameter: it returns the value read and
  the number of characters it consumed (\<^verbatim>\<open>end - s\<close>). \<open>s\<close> and \<^verbatim>\<open>out\<close> are not \<^verbatim>\<open>NULL\<close>. The
  characters \<^verbatim>\<open>end[1]\<close> and \<^verbatim>\<open>end[2]\<close> are read as NUL when they lie past the end.
\<close>

definition cargs_read_size :: "(string \<Rightarrow> dbl \<times> nat) \<Rightarrow> string \<Rightarrow> bool \<Rightarrow> size_result" where
  "cargs_read_size strtod s prefer_iec =
     (if s = [] then SizeFail
      else
        (case strtod s of
           (v, n) \<Rightarrow>
             if n = 0 then SizeFail
             else
               (let end = dropWhile is_blank (drop n s) in
                if cstr_at end 0 \<noteq> CHR 0x00 then
                  (case size_unit prefer_iec (toupper (cstr_at end 0)) (toupper (cstr_at end 1))
                          (toupper (cstr_at end 2)) of
                     None \<Rightarrow> SizeFail
                   | Some (mult, step) \<Rightarrow>
                       if cstr_at (dropWhile is_blank (drop step end)) 0 \<noteq> CHR 0x00 then SizeFail
                       else size_finish (dmul v mult))
                else size_finish (dmul v (Fin 1 0)))))"

definition cargs_read_size_si :: "(string \<Rightarrow> dbl \<times> nat) \<Rightarrow> string \<Rightarrow> size_result" where
  "cargs_read_size_si strtod s = cargs_read_size strtod s False"

definition cargs_read_size_iec :: "(string \<Rightarrow> dbl \<times> nat) \<Rightarrow> string \<Rightarrow> size_result" where
  "cargs_read_size_iec strtod s = cargs_read_size strtod s True"

section \<open>Notions used to state the properties\<close>

text \<open>
  The levels that one call of \<^verbatim>\<open>cargs_dispatch\<close> works on: a level is the current node,
  the index at which its parse starts, the path so far and the world at that moment.
  From a level whose parse succeeds and stops at a token that names a child, the loop
  moves to the child at the next index.
\<close>

inductive dispatch_visits ::
  "(string \<Rightarrow> string option) \<Rightarrow> cargs_env option \<Rightarrow> int \<Rightarrow> string list
    \<Rightarrow> 'u cargs_cmd \<times> int \<times> string list \<times> 'u world
    \<Rightarrow> 'u cargs_cmd \<times> int \<times> string list \<times> 'u world \<Rightarrow> bool"
  for getenv env argc argv where
    here: "dispatch_visits getenv env argc argv lv lv"
  | descend:
      "cargs_parse_opts_level getenv env (Some cmd) argc argv i w (path = []) (path = []) path
         = (CARGS_OK, i', w') \<Longrightarrow>
       i' < argc \<Longrightarrow>
       cstr_at (argv ! nat i') 0 \<noteq> CHR ''-'' \<Longrightarrow>
       cargs_find_sub (Some cmd) (argv ! nat i') = Some sub \<Longrightarrow>
       dispatch_visits getenv env argc argv
         (sub, i' + 1, if length path < 16 then path @ [argv ! nat i'] else path, w') lv \<Longrightarrow>
       dispatch_visits getenv env argc argv (cmd, i, path, w) lv"

text \<open>
  The names that the builtins take before the level's own options are looked up:
  \<^verbatim>\<open>--help\<close> and \<^verbatim>\<open>-h\<close> when help is enabled, \<^verbatim>\<open>--version\<close> and \<^verbatim>\<open>-v\<close>, and \<^verbatim>\<open>--author\<close>,
  when they are enabled, allowed at the level and the text to print is set.
\<close>

definition intercepts_long :: "cargs_env option \<Rightarrow> bool \<Rightarrow> bool \<Rightarrow> string \<Rightarrow> bool" where
  "intercepts_long env allow_version allow_author name =
     (env_flag env e_auto_help \<and> name = ''help''
      \<or> allow_version \<and> env_flag env e_auto_version \<and> name = ''version''
          \<and> env_flag env (\<lambda>e. e_version e \<noteq> None)
      \<or> allow_author \<and> env_flag env e_auto_author \<and> name = ''author''
          \<and> env_flag env (\<lambda>e. e_author e \<noteq> None))"

definition intercepts_short :: "cargs_env option \<Rightarrow> bool \<Rightarrow> char \<Rightarrow> bool" where
  "intercepts_short env allow_version c =
     (env_flag env e_auto_help \<and> c = CHR ''h''
      \<or> allow_version \<and> env_flag env e_auto_version \<and> c = CHR ''v''
          \<and> env_flag env (\<lambda>e. e_version e \<noteq> None))"

text \<open>The world in which a pass of the token loop ends.\<close>

fun scan_world :: "'u scan \<Rightarrow> 'u world" where
  "scan_world (Abort rc w) = w"
| "scan_world (Intercepted w) = w"
| "scan_world (Next i w counts) = w"

text \<open>
  The lookahead rule in the words of the specification: a token looks numeric when a
  leading \<^verbatim>\<open>+\<close> or \<^verbatim>\<open>-\<close> is followed by a digit, by \<^verbatim>\<open>.\<close> and a digit, or by a
  hexadecimal prefix; the next token is taken as the value when it is not \<^verbatim>\<open>--\<close> and
  either does not start with \<^verbatim>\<open>-\<close> or looks numeric.
\<close>

definition spec_looks_numeric :: "string \<Rightarrow> bool" where
  "spec_looks_numeric s =
     (case s of
        [] \<Rightarrow> False
      | sg # r \<Rightarrow>
          (sg = CHR ''+'' \<or> sg = CHR ''-'') \<and>
          ((case r of d # r' \<Rightarrow> isdigit d | [] \<Rightarrow> False)
           \<or> (case r of dot # d # r' \<Rightarrow> dot = CHR ''.'' \<and> isdigit d | _ \<Rightarrow> False)
           \<or> (case r of z # h # r' \<Rightarrow> z = CHR ''0'' \<and> (h = CHR ''x'' \<or> h = CHR ''X'') | _ \<Rightarrow> False)))"

definition spec_takes_next :: "string \<Rightarrow> bool" where
  "spec_takes_next nxt =
     (nxt \<noteq> ''--'' \<and>
      ((case nxt of [] \<Rightarrow> True | c # r \<Rightarrow> c \<noteq> CHR ''-'') \<or> spec_looks_numeric nxt))"

text \<open>
  The token after the one at index \<open>i\<close>, when there is one (\<^verbatim>\<open>i + 1 < argc\<close>).
\<close>

definition next_token :: "int \<Rightarrow> string list \<Rightarrow> int \<Rightarrow> string option" where
  "next_token argc argv i = (if i + 1 < argc then Some (argv ! nat (i + 1)) else None)"

text \<open>
  The value resolution of an option that was found, read off the branches on
  \<^verbatim>\<open>o->arg\<close>: from the kind, the attached value (the text after \<^verbatim>\<open>=\<close>, or the non-empty
  rest of a short cluster) and the next token, the value passed to the callback and
  whether the next token is consumed; \<open>None\<close> where the parse fails instead (a flag with
  \<^verbatim>\<open>=value\<close>, a Required option with no value).
\<close>

definition opt_value ::
  "cargs_arg_kind \<Rightarrow> string option \<Rightarrow> string option \<Rightarrow> (string option \<times> bool) option" where
  "opt_value kind att nxt =
     (case kind of
        CARGS_ARG_NONE \<Rightarrow> (if att = None then Some (None, False) else None)
      | CARGS_ARG_REQUIRED \<Rightarrow>
          (case att of
             Some v \<Rightarrow> Some (Some v, False)
           | None \<Rightarrow> (case nxt of Some t \<Rightarrow> Some (Some t, True) | None \<Rightarrow> None))
      | CARGS_ARG_OPTIONAL \<Rightarrow>
          (case att of
             Some v \<Rightarrow> Some (Some v, False)
           | None \<Rightarrow>
               (case nxt of
                  Some t \<Rightarrow> if spec_takes_next t then Some (Some t, True) else Some (None, False)
                | None \<Rightarrow> Some (None, False))))"

text \<open>
  The characters of a short cluster before the one looked at are all flags: none is
  taken by a builtin, each is the short name of a None-kind option of the level. This
  is the only way the cluster loop gets past them, since an option that takes a
  value takes the non-empty rest of the token as its attached value.
\<close>

definition cluster_flags :: "cargs_env option \<Rightarrow> 'u cargs_cmd option \<Rightarrow> bool \<Rightarrow> string \<Rightarrow> bool" where
  "cluster_flags env cmd allow_version pre =
     list_all (\<lambda>c. \<not> intercepts_short env allow_version c \<and>
                  (case cargs_find_short (cmd_opts cmd) c of
                     None \<Rightarrow> False
                   | Some opt \<Rightarrow> o_arg opt = CARGS_ARG_NONE)) pre"

text \<open>
  The overlay in the words of the specification: the value of the option's environment
  variable when it is set, else its static default; the overlay applies to an option
  that has such a value and a callback.
\<close>

definition overlay_value :: "(string \<Rightarrow> string option) \<Rightarrow> 'u cargs_opt \<Rightarrow> string option" where
  "overlay_value getenv opt =
     (case (case o_env opt of None \<Rightarrow> None | Some e \<Rightarrow> getenv e) of
        Some v \<Rightarrow> Some v
      | None \<Rightarrow> o_def opt)"

definition overlaid :: "(string \<Rightarrow> string option) \<Rightarrow> 'u cargs_opt \<Rightarrow> bool" where
  "overlaid getenv opt = (overlay_value getenv opt \<noteq> None \<and> o_cb opt \<noteq> None)"

text \<open>
  The unit suffix in the words of the specification, on the upper-cased suffix: \<^verbatim>\<open>B\<close>, or
  a unit letter \<^verbatim>\<open>K\<close>, \<^verbatim>\<open>M\<close>, \<^verbatim>\<open>G\<close>, \<^verbatim>\<open>T\<close>, \<^verbatim>\<open>P\<close>, \<^verbatim>\<open>E\<close> (powers 1 to 6), optionally followed by
  \<^verbatim>\<open>I\<close>, optionally followed by \<^verbatim>\<open>B\<close>; the result is the power and whether \<^verbatim>\<open>I\<close> was there.
  The multiplier is the radix to that power: 1024 when \<^verbatim>\<open>I\<close> was there or the caller
  prefers it, else 1000.
\<close>

definition unit_power :: "char \<Rightarrow> nat option" where
  "unit_power l =
     (if l = CHR ''K'' then Some 1 else if l = CHR ''M'' then Some 2
      else if l = CHR ''G'' then Some 3 else if l = CHR ''T'' then Some 4
      else if l = CHR ''P'' then Some 5 else if l = CHR ''E'' then Some 6 else None)"

definition spec_unit :: "string \<Rightarrow> (nat \<times> bool) option" where
  "spec_unit suf =
     (if suf = ''B'' then Some (0, False)
      else
        (case suf of
           [l] \<Rightarrow> map_option (\<lambda>k. (k, False)) (unit_power l)
         | [l, x] \<Rightarrow>
             (if x = CHR ''B'' then map_option (\<lambda>k. (k, False)) (unit_power l)
              else if x = CHR ''I'' then map_option (\<lambda>k. (k, True)) (unit_power l)
              else None)
         | [l, x, y] \<Rightarrow>
             (if x = CHR ''I'' \<and> y = CHR ''B'' then map_option (\<lambda>k. (k, True)) (unit_power l)
              else None)
         | _ \<Rightarrow> None))"

definition spec_mult :: "bool \<Rightarrow> nat \<times> bool \<Rightarrow> int" where
  "spec_mult prefer_iec u = (if snd u \<or> prefer_iec then 1024 else 1000) ^ fst u"

text \<open>A string without its trailing blanks.\<close>

definition strip_blanks :: "string \<Rightarrow> string" where
  "strip_blanks xs = rev (dropWhile is_blank (rev xs))"

section \<open>Concrete command trees\<close>

text \<open>
  Inputs on which the model is run below. The caller's context is a list of notes: a
  callback appends the tag of its option with the value it was given, a handler
  appends its tag.
\<close>

definition note_cb :: "string \<Rightarrow> string list cargs_cb" where
  "note_cb tag val u = (0, u @ [tag @ (case val of None \<Rightarrow> [] | Some v \<Rightarrow> CHR ''='' # v)])"

definition note_run :: "string \<Rightarrow> string list \<Rightarrow> string list \<Rightarrow> int \<times> string list" where
  "note_run tag args u = (0, u @ [tag])"

definition mk_opt ::
  "string \<Rightarrow> char \<Rightarrow> cargs_arg_kind \<Rightarrow> string option \<Rightarrow> 8 word \<Rightarrow> 8 word \<Rightarrow> string list cargs_opt" where
  "mk_opt nm c k dflt g pol =
     \<lparr>o_long_name = Some nm, o_short_name = c, o_arg = k, o_metavar = None, o_help = None,
      o_cb = Some (note_cb nm), o_env = None, o_def = dflt, o_group = g, o_group_policy = pol\<rparr>"

definition env_all :: cargs_env where
  "env_all = \<lparr>e_prog = Some ''t'', e_version = Some ''v1'', e_author = Some ''a'',
     e_auto_help = True, e_auto_version = True, e_auto_author = True,
     e_wrap_cols = 80, e_color = False\<rparr>"

definition no_env :: "string \<Rightarrow> string option" where
  "no_env v = None"

definition w0 :: "string list world" where
  "w0 = \<lparr>user = [], events = []\<rparr>"

text \<open>A root with the child \<^verbatim>\<open>remove\<close>, alias \<^verbatim>\<open>rm\<close>; both have handlers and no schema.\<close>

definition remove_cmd :: "string list cargs_cmd" where
  "remove_cmd = Cmd (Some ''remove'') None [] [] [Some ''rm''] [] (Some (note_run ''remove''))"

definition remote_root :: "string list cargs_cmd" where
  "remote_root = Cmd None None [] [remove_cmd] [] [] (Some (note_run ''root''))"

text \<open>A level with the flags \<^verbatim>\<open>--json\<close> and \<^verbatim>\<open>--yaml\<close> in one group under one policy.\<close>

definition format_cmd :: "8 word \<Rightarrow> 8 word \<Rightarrow> string list cargs_cmd" where
  "format_cmd g pol =
     Cmd None None
       [mk_opt ''json'' (CHR 0x00) CARGS_ARG_NONE None g pol,
        mk_opt ''yaml'' (CHR 0x00) CARGS_ARG_NONE None g pol]
       [] [] [] (Some (note_run ''root''))"

text \<open>A level with the Required option \<^verbatim>\<open>--jobs\<close>/\<^verbatim>\<open>-j\<close> and the Optional \<^verbatim>\<open>--limit\<close>/\<^verbatim>\<open>-l\<close>.\<close>

definition jobs_cmd :: "string list cargs_cmd" where
  "jobs_cmd =
     Cmd None None
       [mk_opt ''jobs'' (CHR ''j'') CARGS_ARG_REQUIRED None 0 0,
        mk_opt ''limit'' (CHR ''l'') CARGS_ARG_OPTIONAL None 0 0]
       [] [] [] (Some (note_run ''root''))"

text \<open>A level with the flag \<^verbatim>\<open>--verbose\<close>/\<^verbatim>\<open>-V\<close> and the Optional \<^verbatim>\<open>--limit\<close>/\<^verbatim>\<open>-l\<close>.\<close>

definition limit_cmd :: "string list cargs_cmd" where
  "limit_cmd =
     Cmd None None
       [mk_opt ''verbose'' (CHR ''V'') CARGS_ARG_NONE None 0 0,
        mk_opt ''limit'' (CHR ''l'') CARGS_ARG_OPTIONAL None 0 0]
       [] [] [] (Some (note_run ''root''))"

text \<open>
  A level in the manner of \<^verbatim>\<open>examples/06_env_defaults.c\<close>: \<^verbatim>\<open>--format\<close>/\<^verbatim>\<open>-f\<close> reads the
  variable \<^verbatim>\<open>FMT\<close> and defaults to \<^verbatim>\<open>json\<close>, \<^verbatim>\<open>--jobs\<close> defaults to \<^verbatim>\<open>4\<close>, \<^verbatim>\<open>--level\<close> has
  neither, the flag \<^verbatim>\<open>--color\<close>/\<^verbatim>\<open>-C\<close> defaults to \<^verbatim>\<open>on\<close>, the flag \<^verbatim>\<open>--verbose\<close>/\<^verbatim>\<open>-V\<close> has
  no default; here \<^verbatim>\<open>--format\<close> is alone in the MutuallyExclusive group 1 and \<^verbatim>\<open>--color\<close>
  alone in the MutuallyExclusive group 2. In \<open>fmt_env\<close> only \<^verbatim>\<open>FMT\<close> is set.
\<close>

definition overlay_cmd :: "string list cargs_cmd" where
  "overlay_cmd =
     Cmd None None
       [mk_opt ''jobs'' (CHR ''j'') CARGS_ARG_REQUIRED (Some ''4'') 0 0,
        (mk_opt ''format'' (CHR ''f'') CARGS_ARG_REQUIRED (Some ''json'') 1 CARGS_GRP_XOR)
          \<lparr>o_env := Some ''FMT''\<rparr>,
        mk_opt ''level'' (CHR ''L'') CARGS_ARG_OPTIONAL None 0 0,
        mk_opt ''color'' (CHR ''C'') CARGS_ARG_NONE (Some ''on'') 2 CARGS_GRP_XOR,
        mk_opt ''verbose'' (CHR ''V'') CARGS_ARG_NONE None 0 0]
       [] [] [] (Some (note_run ''root''))"

definition fmt_env :: "string \<Rightarrow> string option" where
  "fmt_env v = (if v = ''FMT'' then Some ''yaml'' else None)"

text \<open>
  A stand-in for \<^verbatim>\<open>strtod\<close> on unsigned decimal integer literals: it reads the leading
  digits.
\<close>

definition digits_strtod :: "string \<Rightarrow> dbl \<times> nat" where
  "digits_strtod s =
     (double_of_int (foldl (\<lambda>a c. 10 * a + (of_char c - 48)) 0 (takeWhile isdigit s)),
      length (takeWhile isdigit s))"

section \<open>Verified properties\<close>

lemmas cargs_codes =
  CARGS_OK_def CARGS_DONE_def CARGS_ERR_UNKNOWN_def CARGS_ERR_MISSING_VAL_def
  CARGS_ERR_BAD_FORMAT_def CARGS_ERR_GROUP_def CARGS_ERR_POSITIONAL_def
  CARGS_ERR_TOO_MANY_def

subsection \<open>Positional validation\<close>

lemma pos_sums_acc:
  "pos_sums ps (a, b, h) =
     (a + of_nat (schema_sum_min ps), b + of_nat (schema_sum_max ps), h \<or> schema_unbounded ps)"
  by (induction ps arbitrary: a b h)
     (auto simp: schema_sum_min_def schema_sum_max_def schema_unbounded_def algebra_simps)

lemma unat_u16_le: "unat (v :: 16 word) \<le> 65535"
  using unsigned_less [of v, where 'a = nat] by simp

lemma schema_sum_min_le: "schema_sum_min ps \<le> 65535 * length ps"
  by (induction ps) (auto simp: schema_sum_min_def intro: add_mono unat_u16_le)

lemma schema_sum_max_le: "schema_sum_max ps \<le> 65535 * length ps"
proof (induction ps)
  case Nil
  show ?case by (simp add: schema_sum_max_def)
next
  case (Cons p ps)
  have "unat (p_max p) \<le> 65535" by (rule unat_u16_le)
  with Cons show ?case by (simp add: schema_sum_max_def)
qed

lemma sint_small: "n < 2 ^ 31 \<Longrightarrow> sint (of_nat n :: 32 word) = int n"
  by (simp add: signed_of_nat signed_take_bit_int_eq_self)

text \<open>
  With at most 32768 segments neither 32-bit sum reaches \<open>2 ^ 31\<close>, so the casts to
  \<^verbatim>\<open>int\<close> keep their values.
\<close>

lemma validate_nonempty:
  assumes "c_pos c \<noteq> []" and "length (c_pos c) \<le> 32768"
  shows "cargs_validate_positional (Some c) n =
           (if n < int (schema_sum_min (c_pos c)) then CARGS_ERR_POSITIONAL
            else if \<not> schema_unbounded (c_pos c) \<and> int (schema_sum_max (c_pos c)) < n
            then CARGS_ERR_TOO_MANY else CARGS_OK)"
proof -
  have "schema_sum_min (c_pos c) \<le> 65535 * 32768"
    using schema_sum_min_le [of "c_pos c"] assms(2) by linarith
  then have a: "sint (of_nat (schema_sum_min (c_pos c)) :: 32 word) = int (schema_sum_min (c_pos c))"
    by (intro sint_small) simp
  have "schema_sum_max (c_pos c) \<le> 65535 * 32768"
    using schema_sum_max_le [of "c_pos c"] assms(2) by linarith
  then have b: "sint (of_nat (schema_sum_max (c_pos c)) :: 32 word) = int (schema_sum_max (c_pos c))"
    by (intro sint_small) simp
  show ?thesis
    using assms(1) by (simp add: cargs_validate_positional_def pos_sums_acc a b)
qed

text \<open>
  C7, as amended. For every non-empty positional schema of at most 32768 segments and
  every leftover count \<open>n\<close>: validation fails with the Positional code exactly when
  \<open>n\<close> is below the sum of the minima; it fails with the TooMany code exactly when
  \<open>n\<close> is not below that sum, no segment is unbounded and \<open>n\<close> exceeds the sum of the
  maxima; it succeeds otherwise. The schema \<open>{min=1, max=unbounded}, {min=1, max=1}\<close>
  accepts exactly the counts \<open>n \<ge> 2\<close>.
\<close>

theorem validate_positional_envelope:
  assumes "c_pos c \<noteq> []" and "length (c_pos c) \<le> 32768"
  shows "(cargs_validate_positional (Some c) n = CARGS_ERR_POSITIONAL
            \<longleftrightarrow> n < int (schema_sum_min (c_pos c)))
       \<and> (cargs_validate_positional (Some c) n = CARGS_ERR_TOO_MANY
            \<longleftrightarrow> int (schema_sum_min (c_pos c)) \<le> n \<and> \<not> schema_unbounded (c_pos c)
                \<and> int (schema_sum_max (c_pos c)) < n)
       \<and> (cargs_validate_positional (Some c) n = CARGS_OK
            \<longleftrightarrow> int (schema_sum_min (c_pos c)) \<le> n
                \<and> (schema_unbounded (c_pos c) \<or> n \<le> int (schema_sum_max (c_pos c))))
       \<and> (c_pos c = [p1, p2] \<and> p_min p1 = 1 \<and> p_max p1 = CARGS_POS_INF
            \<and> p_min p2 = 1 \<and> p_max p2 = 1
            \<longrightarrow> (cargs_validate_positional (Some c) n = CARGS_OK \<longleftrightarrow> 2 \<le> n))"
proof -
  have "schema_sum_min [p1, p2] = 2 \<and> schema_unbounded [p1, p2]"
    if "p_min p1 = 1" "p_max p1 = CARGS_POS_INF" "p_min p2 = 1"
    using that by (simp add: schema_sum_min_def schema_unbounded_def)
  then show ?thesis
    unfolding validate_nonempty [OF assms] by (auto simp: cargs_codes)
qed

theorem validate_positional_envelope_witness:
  "c_pos (Cmd None None [] [] []
        [\<lparr>p_name = Some ''SRC'', p_desc = None, p_min = 1, p_max = CARGS_POS_INF\<rparr>,
         \<lparr>p_name = Some ''DST'', p_desc = None, p_min = 1, p_max = 1\<rparr>] None :: unit cargs_cmd) \<noteq> []
   \<and> cargs_validate_positional
     (Some (Cmd None None [] [] []
        [\<lparr>p_name = Some ''SRC'', p_desc = None, p_min = 1, p_max = CARGS_POS_INF\<rparr>,
         \<lparr>p_name = Some ''DST'', p_desc = None, p_min = 1, p_max = 1\<rparr>] None :: unit cargs_cmd)) 1
     = CARGS_ERR_POSITIONAL
   \<and> cargs_validate_positional
     (Some (Cmd None None [] [] []
        [\<lparr>p_name = Some ''SRC'', p_desc = None, p_min = 1, p_max = CARGS_POS_INF\<rparr>,
         \<lparr>p_name = Some ''DST'', p_desc = None, p_min = 1, p_max = 1\<rparr>] None :: unit cargs_cmd)) 1
     \<noteq> CARGS_OK"
proof -
  let ?p1 = "\<lparr>p_name = Some ''SRC'', p_desc = None, p_min = 1, p_max = CARGS_POS_INF\<rparr>"
  let ?p2 = "\<lparr>p_name = Some ''DST'', p_desc = None, p_min = 1, p_max = 1\<rparr>"
  let ?c = "Cmd None None [] [] [] [?p1, ?p2] None :: unit cargs_cmd"
  have h: "c_pos ?c \<noteq> []" "length (c_pos ?c) \<le> 32768" by simp_all
  show ?thesis
    using validate_positional_envelope [OF h, of 1 ?p1 ?p2]
    by (simp add: schema_sum_min_def)
qed

text \<open>
  C7 as stated fails at the empty schema: no segment is unbounded and one leftover
  token exceeds the sum of the maxima, which is zero, yet the code does not answer
  TooMany.
\<close>

theorem validate_positional_empty_counterexample:
  "\<not> schema_unbounded (c_pos (Cmd None None [] [] [] [] None :: unit cargs_cmd))
   \<and> int (schema_sum_max (c_pos (Cmd None None [] [] [] [] None :: unit cargs_cmd))) < 1
   \<and> cargs_validate_positional (Some (Cmd None None [] [] [] [] None :: unit cargs_cmd)) 1
       \<noteq> CARGS_ERR_TOO_MANY"
  by (simp add: cargs_validate_positional_def schema_unbounded_def schema_sum_max_def cargs_codes)

text \<open>
  C10. A command node with an empty positional schema passes positional validation for
  every leftover count: the result is success, never the Positional or the TooMany
  code.
\<close>

theorem validate_positional_empty_schema:
  "cargs_validate_positional (Some (Cmd nm d os ss al [] r)) n = CARGS_OK
   \<and> cargs_validate_positional (Some (Cmd nm d os ss al [] r)) n \<noteq> CARGS_ERR_POSITIONAL
   \<and> cargs_validate_positional (Some (Cmd nm d os ss al [] r)) n \<noteq> CARGS_ERR_TOO_MANY"
  by (simp add: cargs_validate_positional_def cargs_codes)

subsection \<open>The dispatcher\<close>

text \<open>
  C9. Called with a \<^verbatim>\<open>NULL\<close> root, a \<^verbatim>\<open>NULL\<close> argument vector or a non-positive argument
  count, \<^verbatim>\<open>cargs_dispatch\<close> returns the BadFormat code and leaves the world as it was: no
  callback and no handler has been called.
\<close>

theorem dispatch_rejects_null:
  "root = None \<or> argv = None \<or> argc \<le> 0 \<Longrightarrow>
     cargs_dispatch getenv env root argc argv w = (CARGS_ERR_BAD_FORMAT, w)"
  by (auto simp: cargs_dispatch_def split: option.splits)

theorem dispatch_rejects_null_witness:
  "cargs_dispatch (\<lambda>v. None) None (Some (Cmd None None [] [] [] [] None)) 0 (Some [])
     \<lparr>user = (), events = []\<rparr> = (- 3, \<lparr>user = (), events = []\<rparr>)"
  using dispatch_rejects_null [of "Some (Cmd None None [] [] [] [] None)" "Some []" 0
          "\<lambda>v. None" None "\<lparr>user = (), events = []\<rparr>"]
  by (simp add: CARGS_ERR_BAD_FORMAT_def)


lemma dispatch_loop_intercepted:
  assumes "cargs_parse_opts_level getenv env (Some cmd) argc argv i w (path = []) (path = []) path
             = (CARGS_DONE, i', w')"
  shows "dispatch_loop getenv env cmd argc argv i path w = (CARGS_OK, w')"
  by (subst dispatch_loop.simps) (simp add: assms)

lemma dispatch_loop_descend:
  assumes "cargs_parse_opts_level getenv env (Some cmd) argc argv i w (path = []) (path = []) path
             = (CARGS_OK, i', w')"
    and "i' < argc" and "cstr_at (argv ! nat i') 0 \<noteq> CHR ''-''"
    and "cargs_find_sub (Some cmd) (argv ! nat i') = Some sub"
  shows "dispatch_loop getenv env cmd argc argv i path w =
         dispatch_loop getenv env sub argc argv (i' + 1)
           (if length path < 16 then path @ [argv ! nat i'] else path) w'"
  using assms by (subst dispatch_loop.simps) (simp add: CARGS_OK_def CARGS_DONE_def)

lemma dispatch_visits_intercepted:
  assumes "dispatch_visits getenv env argc argv start lv"
    and "lv = (cmd, i, path, w)"
    and "cargs_parse_opts_level getenv env (Some cmd) argc argv i w (path = []) (path = []) path
             = (CARGS_DONE, i', w')"
  shows "dispatch_loop getenv env (fst start) argc argv (fst (snd start)) (fst (snd (snd start)))
           (snd (snd (snd start))) = (CARGS_OK, w')"
  using assms
proof (induction rule: dispatch_visits.induct)
  case (here lv)
  then show ?case by (simp add: dispatch_loop_intercepted)
next
  case (descend cmd0 i0 w0 path0 j w1 sub lv)
  then show ?case by (simp add: dispatch_loop_descend)
qed

text \<open>
  C1, as amended. Whenever the parse of a level that a dispatch call works on returns
  the intercepted outcome \<^verbatim>\<open>CARGS_DONE\<close> (the positive sentinel 1), \<^verbatim>\<open>cargs_dispatch\<close>
  returns \<^verbatim>\<open>CARGS_OK\<close>, that is zero, the status of ordinary success, with the world as
  the builtin left it.
\<close>

theorem dispatch_intercepted_returns_zero:
  assumes "0 < argc"
    and "dispatch_visits getenv env argc argv (root, 1, [], w) (cmd, i, path, wl)"
    and "cargs_parse_opts_level getenv env (Some cmd) argc argv i wl (path = []) (path = []) path
           = (CARGS_DONE, i', w')"
  shows "cargs_dispatch getenv env (Some root) argc (Some argv) w = (CARGS_OK, w')
         \<and> CARGS_OK = 0 \<and> CARGS_DONE = 1"
  using dispatch_visits_intercepted [OF assms(2) refl assms(3)] assms(1)
  by (simp add: cargs_dispatch_def cargs_codes)

theorem dispatch_intercepted_returns_zero_witness:
  "cargs_parse_opts_level no_env (Some env_all) (Some remove_cmd) 3 [''t'', ''rm'', ''--help'']
      2 w0 False False [''rm'']
     = (1, 3, \<lparr>user = [], events = [PrintHelp [''rm'']]\<rparr>)
   \<and> cargs_dispatch no_env (Some env_all) (Some remote_root) 3 (Some [''t'', ''rm'', ''--help'']) w0
     = (0, \<lparr>user = [], events = [PrintHelp [''rm'']]\<rparr>)"
proof -
  let ?argv = "[''t'', ''rm'', ''--help'']"
  have p0: "cargs_parse_opts_level no_env (Some env_all) (Some remote_root) 3 ?argv 1 w0
              ([] = []) ([] = []) [] = (CARGS_OK, 1, w0)"
    by code_simp
  have p1: "cargs_parse_opts_level no_env (Some env_all) (Some remove_cmd) 3 ?argv 2 w0
              ([''rm''] = []) ([''rm''] = []) [''rm'']
            = (CARGS_DONE, 3, \<lparr>user = [], events = [PrintHelp [''rm'']]\<rparr>)"
    by code_simp
  have f: "cargs_find_sub (Some remote_root) (?argv ! nat 1) = Some remove_cmd"
    by (simp add: cargs_find_sub_def remote_root_def remove_cmd_def)
  have v: "dispatch_visits no_env (Some env_all) 3 ?argv (remote_root, 1, [], w0)
             (remove_cmd, 2, [''rm''], w0)"
    by (rule dispatch_visits.descend [OF p0 _ _ f])
       (simp_all add: cstr_at_def dispatch_visits.here)
  show ?thesis
    using dispatch_intercepted_returns_zero [OF _ v p1] p1
    by (simp add: cargs_codes)
qed

text \<open>
  C1 as stated fails: on \<^verbatim>\<open>t --help\<close> the root level's parse returns \<^verbatim>\<open>CARGS_DONE\<close> and
  the status of the dispatch call is not positive.
\<close>

theorem dispatch_help_zero_counterexample:
  "cargs_parse_opts_level no_env (Some env_all) (Some remote_root) 2 [''t'', ''--help''] 1 w0
      True True [] = (CARGS_DONE, 2, \<lparr>user = [], events = [PrintHelp []]\<rparr>)
   \<and> \<not> 0 < fst (cargs_dispatch no_env (Some env_all) (Some remote_root) 2
                  (Some [''t'', ''--help'']) w0)"
  by code_simp

text \<open>
  C2, the code at the failing input. After \<^verbatim>\<open>--\<close> the token \<^verbatim>\<open>rm\<close>, an alias of the child
  \<^verbatim>\<open>remove\<close>, is not handed to the root as a positional: the dispatcher descends, and
  the child's handler runs with no tokens. With \<^verbatim>\<open>-x\<close> behind it, that token is matched
  as an option of the child and the call fails with the Unknown code. A token after
  \<^verbatim>\<open>--\<close> that starts with \<^verbatim>\<open>-\<close> does stay a positional of the root.
\<close>

theorem double_dash_subcommand_descends:
  "cargs_dispatch no_env (Some env_all) (Some remote_root) 3 (Some [''t'', ''--'', ''rm'']) w0
     = (0, \<lparr>user = [''remove''], events = [CallRun (Some ''remove'') []]\<rparr>)
   \<and> cargs_dispatch no_env (Some env_all) (Some remote_root) 4
        (Some [''t'', ''--'', ''rm'', ''-x'']) w0
     = (CARGS_ERR_UNKNOWN, w0)
   \<and> cargs_dispatch no_env (Some env_all) (Some remote_root) 4
        (Some [''t'', ''--'', ''-x'', ''rm'']) w0
     = (0, \<lparr>user = [''root''], events = [CallRun None [''-x'', ''rm'']]\<rparr>)"
  by code_simp

subsection \<open>Group policies\<close>

text \<open>
  C5, the code at the failing input. Two flags of group 32 under the MutuallyExclusive
  policy are both matched, the counter of the group is 2, and the level parse
  succeeds: bit 32 does not fit the 32-bit mask. The same level with group 31 fails
  with the GroupViolation code.
\<close>

theorem group_32_not_enforced:
  "cargs_parse_opts_level no_env None (Some (format_cmd 32 CARGS_GRP_XOR)) 3
     [''t'', ''--json'', ''--yaml''] 1 w0 True True []
     = (CARGS_OK, 3,
        \<lparr>user = [''json'', ''yaml''],
         events = [CallCb (Some ''json'') (CHR 0x00) None, CallCb (Some ''yaml'') (CHR 0x00) None]\<rparr>)
   \<and> cargs_parse_opts_level no_env None (Some (format_cmd 32 CARGS_GRP_REQ_ONE)) 1
     [''t''] 1 w0 True True []
     = (CARGS_OK, 1, w0)
   \<and> cargs_parse_opts_level no_env None (Some (format_cmd 31 CARGS_GRP_XOR)) 3
     [''t'', ''--json'', ''--yaml''] 1 w0 True True []
     = (CARGS_ERR_GROUP, 1,
        \<lparr>user = [''json'', ''yaml''],
         events = [CallCb (Some ''json'') (CHR 0x00) None, CallCb (Some ''yaml'') (CHR 0x00) None]\<rparr>)"
  by code_simp


subsection \<open>Option values\<close>

lemmas fixture_defs =
  note_cb_def note_run_def mk_opt_def env_all_def no_env_def w0_def remove_cmd_def
  remote_root_def format_cmd_def jobs_cmd_def

lemma find_long_Some: "cargs_find_long opts name = Some opt \<Longrightarrow> o_long_name opt = Some name"
  by (induction opts) (auto split: if_splits)

lemma find_short_Some:
  "cargs_find_short opts x = Some opt \<Longrightarrow> o_short_name opt = x \<and> x \<noteq> CHR 0x00"
  by (induction opts) (auto simp: cargs_find_short_def split: if_splits)

lemma takeWhile_no_eq:
  "CHR ''='' \<notin> set name \<Longrightarrow> takeWhile (\<lambda>c. c \<noteq> CHR ''='') name = name"
  by (induction name) auto

lemma split_at_eq:
  assumes "CHR ''='' \<notin> set name"
  shows "takeWhile (\<lambda>c. c \<noteq> CHR ''='') (name @ CHR ''='' # v) = name"
    and "dropWhile (\<lambda>c. c \<noteq> CHR ''='') (name @ CHR ''='' # v) = CHR ''='' # v"
  using assms by (induction name) auto

lemma scan_end: "argc \<le> i \<Longrightarrow>
  cargs_scan env cmd argc argv allow_version allow_author path i w counts = Next i w counts"
  by (subst cargs_scan.simps) simp

lemma apply_opt_last:
  "argc \<le> j \<Longrightarrow>
   (case apply_opt opt val j w counts of
      Next i' w' counts' \<Rightarrow> cargs_scan env cmd argc argv allow_version allow_author path i' w' counts'
    | Abort rc w' \<Rightarrow> Abort rc w' | Intercepted w' \<Rightarrow> Intercepted w')
   = apply_opt opt val j w counts"
  by (auto simp: apply_opt_def scan_end split: prod.splits)

lemma apply_opt_world:
  "o_cb opt = Some f \<Longrightarrow>
   scan_world (apply_opt opt val j w counts) =
     emit (CallCb (o_long_name opt) (o_short_name opt) val) (w\<lparr>user := snd (f val (user w))\<rparr>)"
  by (auto simp: apply_opt_def invoke_cb_def split: prod.splits)

lemma parse_world:
  "snd (snd (cargs_parse_opts_level getenv env cmd argc argv idx w allow_version allow_author path)) =
   scan_world (cargs_scan env cmd argc argv allow_version allow_author path idx
     (fst (cargs_apply_env_defaults_level getenv cmd w (replicate MAXG 0) MAXG))
     (snd (cargs_apply_env_defaults_level getenv cmd w (replicate MAXG 0) MAXG)))"
  by (auto simp: cargs_parse_opts_level_def split: prod.splits scan.splits)


lemma intercepts_long_simps:
  assumes "\<not> intercepts_long env allow_version allow_author name"
  shows "(env_flag env e_auto_help \<and> name = ''help'') = False"
    and "(allow_version \<and> env_flag env e_auto_version \<and> name = ''version''
          \<and> env_flag env (\<lambda>e. e_version e \<noteq> None)) = False"
    and "(allow_author \<and> env_flag env e_auto_author \<and> name = ''author''
          \<and> env_flag env (\<lambda>e. e_author e \<noteq> None)) = False"
  using assms unfolding intercepts_long_def by blast+

lemma long_opt_own:
  assumes ni: "\<not> intercepts_long env allow_version allow_author name"
    and tok: "argv ! nat i = ''--'' @ name" and ne: "CHR ''='' \<notin> set name"
  shows "long_opt env cmd argc argv allow_version allow_author path i w counts =
     (case cargs_find_long (cmd_opts cmd) name of
        None \<Rightarrow> Abort CARGS_ERR_UNKNOWN w
      | Some opt \<Rightarrow>
          (case o_arg opt of
             CARGS_ARG_REQUIRED \<Rightarrow>
               (if i + 1 < argc
                then apply_opt opt (Some (argv ! nat (i + 1))) (i + 1 + 1) w counts
                else Abort CARGS_ERR_MISSING_VAL w)
           | CARGS_ARG_OPTIONAL \<Rightarrow>
               (if i + 1 < argc \<and> argv ! nat (i + 1) \<noteq> ''--''
                   \<and> (cstr_at (argv ! nat (i + 1)) 0 \<noteq> CHR ''-''
                        \<or> cargs_token_looks_numeric (argv ! nat (i + 1)))
                then apply_opt opt (Some (argv ! nat (i + 1))) (i + 1 + 1) w counts
                else apply_opt opt None (i + 1) w counts)
           | CARGS_ARG_NONE \<Rightarrow> apply_opt opt None (i + 1) w counts))"
proof -
  have d: "drop 2 (argv ! nat i) = name" by (simp add: tok)
  show ?thesis
  proof (cases "cargs_find_long (cmd_opts cmd) name")
    case None
    then show ?thesis
      unfolding long_opt_def Let_def d takeWhile_no_eq [OF ne] intercepts_long_simps [OF ni]
      using ne by simp
  next
    case (Some opt)
    then show ?thesis
      unfolding long_opt_def Let_def d takeWhile_no_eq [OF ne] intercepts_long_simps [OF ni]
      using ne by (cases "o_arg opt") auto
  qed
qed

lemma long_opt_own_eq:
  assumes ni: "\<not> intercepts_long env allow_version allow_author name"
    and tok: "argv ! nat i = ''--'' @ name @ CHR ''='' # v" and ne: "CHR ''='' \<notin> set name"
    and len: "length name < 96"
  shows "long_opt env cmd argc argv allow_version allow_author path i w counts =
     (case cargs_find_long (cmd_opts cmd) name of
        None \<Rightarrow> Abort CARGS_ERR_UNKNOWN w
      | Some opt \<Rightarrow>
          (case o_arg opt of
             CARGS_ARG_NONE \<Rightarrow> Abort CARGS_ERR_BAD_FORMAT w
           | CARGS_ARG_REQUIRED \<Rightarrow> apply_opt opt (Some v) (i + 1) w counts
           | CARGS_ARG_OPTIONAL \<Rightarrow> apply_opt opt (Some v) (i + 1) w counts))"
proof -
  have d: "drop 2 (argv ! nat i) = name @ CHR ''='' # v" by (simp add: tok)
  show ?thesis
  proof (cases "cargs_find_long (cmd_opts cmd) name")
    case None
    then show ?thesis
      unfolding long_opt_def Let_def d split_at_eq [OF ne] intercepts_long_simps [OF ni]
      using len by simp
  next
    case (Some opt)
    then show ?thesis
      unfolding long_opt_def Let_def d split_at_eq [OF ne] intercepts_long_simps [OF ni]
      using len by (cases "o_arg opt") simp_all
  qed
qed

lemma intercepts_short_simps:
  assumes "\<not> intercepts_short env allow_version x"
  shows "(env_flag env e_auto_help \<and> x = CHR ''h'') = False"
    and "(allow_version \<and> env_flag env e_auto_version \<and> x = CHR ''v''
          \<and> env_flag env (\<lambda>e. e_version e \<noteq> None)) = False"
  using assms unfolding intercepts_short_def by blast+

lemma short_opts_end:
  "(case r of
      Next i' w' counts' \<Rightarrow> short_opts env cmd argc argv allow_version path [] i' w' counts'
    | Abort rc w' \<Rightarrow> Abort rc w' | Intercepted w' \<Rightarrow> Intercepted w') = r"
  by (cases r) simp_all

lemma short_opts_last:
  assumes ni: "\<not> intercepts_short env allow_version x"
  shows "short_opts env cmd argc argv allow_version path [x] i w counts =
     (case cargs_find_short (cmd_opts cmd) x of
        None \<Rightarrow> Abort CARGS_ERR_UNKNOWN w
      | Some opt \<Rightarrow>
          (case o_arg opt of
             CARGS_ARG_REQUIRED \<Rightarrow>
               (if i < argc then apply_opt opt (Some (argv ! nat i)) (i + 1) w counts
                else Abort CARGS_ERR_MISSING_VAL w)
           | CARGS_ARG_OPTIONAL \<Rightarrow>
               (if i < argc \<and> argv ! nat i \<noteq> ''--''
                   \<and> (cstr_at (argv ! nat i) 0 \<noteq> CHR ''-''
                        \<or> cargs_token_looks_numeric (argv ! nat i))
                then apply_opt opt (Some (argv ! nat i)) (i + 1) w counts
                else apply_opt opt None i w counts)
           | CARGS_ARG_NONE \<Rightarrow> apply_opt opt None i w counts))"
proof (cases "cargs_find_short (cmd_opts cmd) x")
  case None
  then show ?thesis
    by (simp only: short_opts.simps intercepts_short_simps [OF ni] if_False) simp
next
  case (Some opt)
  then show ?thesis
    by (simp only: short_opts.simps intercepts_short_simps [OF ni] if_False short_opts_end)
       (cases "o_arg opt"; simp)
qed

lemma short_opts_attached:
  assumes ni: "\<not> intercepts_short env allow_version x" and "v \<noteq> []"
    and "cargs_find_short (cmd_opts cmd) x = Some opt" and "o_arg opt \<noteq> CARGS_ARG_NONE"
  shows "short_opts env cmd argc argv allow_version path (x # v) i w counts =
           apply_opt opt (Some v) i w counts"
  using assms(2-4)
  by (simp only: short_opts.simps intercepts_short_simps [OF ni] if_False short_opts_end)
     (cases "o_arg opt"; simp)

lemma required_scan:
  assumes fl: "cargs_find_long (c_opts c) name = Some opt"
    and fs: "cargs_find_short (c_opts c) x = Some opt"
    and kind: "o_arg opt = CARGS_ARG_REQUIRED"
    and name: "name \<noteq> []" "CHR ''='' \<notin> set name" "length name < 96"
    and x: "x \<noteq> CHR ''-''"
    and nl: "\<not> intercepts_long env allow_version allow_author name"
    and ns: "\<not> intercepts_short env allow_version x"
    and form: "form = [''--'' @ name, v] \<or> form = [''--'' @ name @ CHR ''='' # v]
               \<or> form = [[CHR ''-'', x], v] \<or> form = [CHR ''-'' # x # v] \<and> v \<noteq> []"
  shows "cargs_scan env (Some c) (1 + int (length form)) (prog # form) allow_version allow_author path 1 w counts
         = apply_opt opt (Some v) (1 + int (length form)) w counts"
proof -
  consider (a) "form = [''--'' @ name, v]" | (b) "form = [''--'' @ name @ CHR ''='' # v]"
    | (c) "form = [[CHR ''-'', x], v]" | (d) "form = [CHR ''-'' # x # v]" "v \<noteq> []"
    using form by blast
  then show ?thesis
  proof cases
    case a
    have t: "(prog # form) ! nat 1 = ''--'' @ name" using a by simp
    have "long_opt env (Some c) 3 (prog # form) allow_version allow_author path 1 w counts
          = apply_opt opt (Some v) 3 w counts"
      unfolding long_opt_own [OF nl t name(2)] using a fl kind by (simp add: cmd_opts_def)
    then show ?thesis
      using a name by (subst cargs_scan.simps) (simp add: cstr_at_def apply_opt_last)
  next
    case b
    have t: "(prog # form) ! nat 1 = ''--'' @ name @ CHR ''='' # v" using b by simp
    have "long_opt env (Some c) 2 (prog # form) allow_version allow_author path 1 w counts
          = apply_opt opt (Some v) 2 w counts"
      unfolding long_opt_own_eq [OF nl t name(2,3)] using b fl kind by (simp add: cmd_opts_def)
    then show ?thesis
      using b name by (subst cargs_scan.simps) (simp add: cstr_at_def apply_opt_last)
  next
    case c
    have "short_opts env (Some c) 3 (prog # form) allow_version path [x] 2 w counts
          = apply_opt opt (Some v) 3 w counts"
      unfolding short_opts_last [OF ns] using c fs kind by (simp add: cmd_opts_def)
    then show ?thesis
      using c x by (subst cargs_scan.simps) (simp add: cstr_at_def apply_opt_last)
  next
    case d
    have "short_opts env (Some c) 2 (prog # form) allow_version path (x # v) 2 w counts
          = apply_opt opt (Some v) 2 w counts"
      using d fs kind by (intro short_opts_attached [OF ns]) (simp_all add: cmd_opts_def)
    then show ?thesis
      using d x by (subst cargs_scan.simps) (simp add: cstr_at_def apply_opt_last)
  qed
qed


text \<open>
  C3, as amended. Let a Required-kind option with a callback be the one found at its
  level under its long name and under its short character, neither of them taken by a
  builtin, the long name non-empty, without \<^verbatim>\<open>=\<close> and shorter than 96 characters, the
  short character not \<^verbatim>\<open>-\<close>. Then for every value \<open>v\<close> the argument vectors
  \<^verbatim>\<open>--name v\<close>, \<^verbatim>\<open>--name=v\<close> and \<^verbatim>\<open>-x v\<close>, and \<^verbatim>\<open>-xv\<close> when \<open>v\<close> is not empty, make the
  token loop do exactly what one application of the option to \<open>v\<close> does: the callback
  is called once, with \<open>v\<close>, whatever \<open>v\<close> starts with. After the level's overlay, the
  level parse leaves the world changed by that one call.
\<close>

theorem required_value_forms_agree:
  assumes "cargs_find_long (c_opts c) name = Some opt"
    and "cargs_find_short (c_opts c) x = Some opt"
    and "o_arg opt = CARGS_ARG_REQUIRED"
    and "o_cb opt = Some f"
    and "name \<noteq> []" and "CHR ''='' \<notin> set name" and "length name < 96"
    and "x \<noteq> CHR ''-''"
    and "\<not> intercepts_long env allow_version allow_author name"
    and "\<not> intercepts_short env allow_version x"
    and "form = [''--'' @ name, v] \<or> form = [''--'' @ name @ CHR ''='' # v]
          \<or> form = [[CHR ''-'', x], v] \<or> form = [CHR ''-'' # x # v] \<and> v \<noteq> []"
    and "argc = 1 + int (length form)"
    and "w1 = fst (cargs_apply_env_defaults_level getenv (Some c) w (replicate MAXG 0) MAXG)"
  shows "cargs_scan env (Some c) argc (prog # form) allow_version allow_author path 1 w counts
           = apply_opt opt (Some v) argc w counts
       \<and> scan_world (apply_opt opt (Some v) argc w counts)
           = emit (CallCb (Some name) x (Some v)) (w\<lparr>user := snd (f (Some v) (user w))\<rparr>)
       \<and> snd (snd (cargs_parse_opts_level getenv env (Some c) argc (prog # form) 1 w
                     allow_version allow_author path))
           = emit (CallCb (Some name) x (Some v)) (w1\<lparr>user := snd (f (Some v) (user w1))\<rparr>)"
proof -
  note scan = required_scan [OF assms(1-3) assms(5-11), folded assms(12)]
  have names: "o_long_name opt = Some name" "o_short_name opt = x"
    using find_long_Some [OF assms(1)] find_short_Some [OF assms(2)] by simp_all
  note world = apply_opt_world [OF assms(4), unfolded names]
  show ?thesis
    by (simp add: scan world parse_world assms(13))
qed

theorem required_value_forms_agree_witness:
  "snd (snd (cargs_parse_opts_level no_env (Some env_all) (Some jobs_cmd) 3
        [''t'', ''--jobs'', ''-10''] 1 w0 True True []))
     = \<lparr>user = [''jobs=-10''], events = [CallCb (Some ''jobs'') (CHR ''j'') (Some ''-10'')]\<rparr>
   \<and> snd (snd (cargs_parse_opts_level no_env (Some env_all) (Some jobs_cmd) 2
        [''t'', ''--jobs=-10''] 1 w0 True True []))
     = \<lparr>user = [''jobs=-10''], events = [CallCb (Some ''jobs'') (CHR ''j'') (Some ''-10'')]\<rparr>
   \<and> snd (snd (cargs_parse_opts_level no_env (Some env_all) (Some jobs_cmd) 2
        [''t'', ''-j-10''] 1 w0 True True []))
     = \<lparr>user = [''jobs=-10''], events = [CallCb (Some ''jobs'') (CHR ''j'') (Some ''-10'')]\<rparr>
   \<and> snd (snd (cargs_parse_opts_level no_env (Some env_all) (Some jobs_cmd) 3
        [''t'', ''-j'', ''-10''] 1 w0 True True []))
     = \<lparr>user = [''jobs=-10''], events = [CallCb (Some ''jobs'') (CHR ''j'') (Some ''-10'')]\<rparr>"
proof -
  let ?opt = "mk_opt ''jobs'' (CHR ''j'') CARGS_ARG_REQUIRED None 0 0"
  have a: "cargs_find_long (c_opts jobs_cmd) ''jobs'' = Some ?opt"
    by (simp add: jobs_cmd_def mk_opt_def)
  have b: "cargs_find_short (c_opts jobs_cmd) (CHR ''j'') = Some ?opt"
    by (simp add: jobs_cmd_def mk_opt_def cargs_find_short_def)
  have c: "o_arg ?opt = CARGS_ARG_REQUIRED" "o_cb ?opt = Some (note_cb ''jobs'')"
    by (simp_all add: mk_opt_def)
  have d: "\<not> intercepts_long (Some env_all) True True ''jobs''"
    "\<not> intercepts_short (Some env_all) True (CHR ''j'')"
    by (simp_all add: intercepts_long_def intercepts_short_def)
  have ov: "fst (cargs_apply_env_defaults_level no_env (Some jobs_cmd) w0 (replicate MAXG 0) MAXG) = w0"
    by (simp add: cargs_apply_env_defaults_level_def jobs_cmd_def mk_opt_def no_env_def)
  note inst = required_value_forms_agree [OF a b c _ _ _ _ d _ _ refl,
      where prog = "''t''" and getenv = no_env and w = w0 and path = "[]"
        and v = "''-10''" and counts = "replicate MAXG 0", unfolded ov]
  show ?thesis
    using inst [of "[''--jobs'', ''-10'']" 3] inst [of "[''--jobs=-10'']" 2]
      inst [of "[''-j-10'']" 2] inst [of "[''-j'', ''-10'']" 3]
    by (simp add: emit_def w0_def note_cb_def)
qed

text \<open>
  C3 as stated fails at the empty value: \<^verbatim>\<open>-x\<close> followed by the empty string is the
  token \<^verbatim>\<open>-x\<close>, which has no attached value; alone on the command line it is a missing
  value and the callback is not called, whereas \<^verbatim>\<open>--name=\<close> calls it with the empty
  string.
\<close>

theorem attached_empty_value_counterexample:
  "cargs_parse_opts_level no_env (Some env_all) (Some jobs_cmd) 2
        [''t'', CHR ''-'' # CHR ''j'' # []] 1 w0 True True []
     = (CARGS_ERR_MISSING_VAL, 1, w0)
   \<and> cargs_parse_opts_level no_env (Some env_all) (Some jobs_cmd) 2
        [''t'', ''--'' @ ''jobs'' @ CHR ''='' # []] 1 w0 True True []
     = (CARGS_OK, 2, \<lparr>user = [''jobs=''], events = [CallCb (Some ''jobs'') (CHR ''j'') (Some [])]\<rparr>)"
  by code_simp

lemma isdigit_nul: "\<not> isdigit (CHR 0x00)"
  by (simp add: isdigit_def)

lemma takes_next_spec:
  "(nxt \<noteq> ''--'' \<and> (cstr_at nxt 0 \<noteq> CHR ''-'' \<or> cargs_token_looks_numeric nxt))
     = spec_takes_next nxt"
proof (cases nxt)
  case Nil
  then show ?thesis by (simp add: spec_takes_next_def cstr_at_def)
next
  case (Cons c r)
  show ?thesis
  proof (cases r)
    case Nil
    with Cons show ?thesis
      by (auto simp: spec_takes_next_def spec_looks_numeric_def cargs_token_looks_numeric_def
            cstr_at_def isdigit_nul)
  next
    case (Cons d r')
    with \<open>nxt = c # r\<close> show ?thesis
      by (cases r')
         (auto simp: spec_takes_next_def spec_looks_numeric_def cargs_token_looks_numeric_def
            cstr_at_def isdigit_nul)
  qed
qed

lemma scan_long_step:
  assumes "0 \<le> i" "i < argc" "argv ! nat i = ''--'' @ name" "name \<noteq> []"
  shows "cargs_scan env cmd argc argv allow_version allow_author path i w counts =
     (case long_opt env cmd argc argv allow_version allow_author path i w counts of
        Next i' w' counts' \<Rightarrow>
          cargs_scan env cmd argc argv allow_version allow_author path i' w' counts'
      | Abort rc w' \<Rightarrow> Abort rc w' | Intercepted w' \<Rightarrow> Intercepted w')"
  using assms by (subst cargs_scan.simps) (simp add: cstr_at_def)

lemma scan_short_step:
  assumes "0 \<le> i" "i < argc" "argv ! nat i = CHR ''-'' # x # p" "x \<noteq> CHR ''-''"
  shows "cargs_scan env cmd argc argv allow_version allow_author path i w counts =
     (case short_opts env cmd argc argv allow_version path (x # p) (i + 1) w counts of
        Next i' w' counts' \<Rightarrow>
          cargs_scan env cmd argc argv allow_version allow_author path i' w' counts'
      | Abort rc w' \<Rightarrow> Abort rc w' | Intercepted w' \<Rightarrow> Intercepted w')"
  using assms by (subst cargs_scan.simps) (simp add: cstr_at_def)

lemma long_opt_value:
  assumes ni: "\<not> intercepts_long env allow_version allow_author name"
    and tok: "argv ! nat i = ''--'' @ name @ (case att of None \<Rightarrow> [] | Some v \<Rightarrow> CHR ''='' # v)"
    and ne: "CHR ''='' \<notin> set name" and len: "att \<noteq> None \<longrightarrow> length name < 96"
    and f: "cargs_find_long (cmd_opts cmd) name = Some opt"
    and v: "opt_value (o_arg opt) att (next_token argc argv i) = Some (val, used)"
  shows "long_opt env cmd argc argv allow_version allow_author path i w cs =
         apply_opt opt val (if used then i + 2 else i + 1) w cs"
proof (cases att)
  case None
  have tok': "argv ! nat i = ''--'' @ name" using tok None by simp
  have i2: "i + 1 + 1 = i + 2" by simp
  show ?thesis
    unfolding long_opt_own [OF ni tok' ne] i2
    using f v None takes_next_spec [of "argv ! nat (i + 1)"]
    by (cases "o_arg opt") (auto simp: opt_value_def next_token_def split: if_splits)
next
  case (Some a)
  have tok': "argv ! nat i = ''--'' @ name @ CHR ''='' # a" using tok Some by simp
  have l: "length name < 96" using len Some by simp
  show ?thesis
    unfolding long_opt_own_eq [OF ni tok' ne l]
    using f v Some
    by (cases "o_arg opt") (auto simp: opt_value_def split: if_splits)
qed

lemma short_opts_flag_step:
  assumes "\<not> intercepts_short env allow_version x"
    and "cargs_find_short (cmd_opts cmd) x = Some opt" and "o_arg opt = CARGS_ARG_NONE"
  shows "short_opts env cmd argc argv allow_version path (x # q) j w cs =
     (case apply_opt opt None j w cs of
        Next i' w' cs' \<Rightarrow> short_opts env cmd argc argv allow_version path q i' w' cs'
      | Abort rc w' \<Rightarrow> Abort rc w' | Intercepted w' \<Rightarrow> Intercepted w')"
  using assms(2,3)
  by (simp only: short_opts.simps intercepts_short_simps [OF assms(1)] if_False)
     (simp split: scan.splits)

lemma short_opts_value:
  assumes ni: "\<not> intercepts_short env allow_version x"
    and f: "cargs_find_short (cmd_opts cmd) x = Some opt"
    and v: "opt_value (o_arg opt) (if o_arg opt = CARGS_ARG_NONE \<or> rest = [] then None else Some rest)
              (next_token argc argv i) = Some (val, used)"
  shows "short_opts env cmd argc argv allow_version path (x # rest) (i + 1) w cs =
     (case apply_opt opt val (if used then i + 2 else i + 1) w cs of
        Next i' w' cs' \<Rightarrow>
          short_opts env cmd argc argv allow_version path
            (if o_arg opt = CARGS_ARG_NONE then rest else []) i' w' cs'
      | Abort rc w' \<Rightarrow> Abort rc w' | Intercepted w' \<Rightarrow> Intercepted w')"
proof (cases "o_arg opt = CARGS_ARG_NONE")
  case True
  have "val = None" "\<not> used" using v True by (simp_all add: opt_value_def)
  then show ?thesis
    unfolding short_opts_flag_step [OF ni f True] using True by simp
next
  case False
  have i2: "i + 1 + 1 = i + 2" by simp
  show ?thesis
  proof (cases "rest = []")
    case True
    have r: "apply_opt opt val (if used then i + 2 else i + 1) w cs =
       (if i + 1 < argc \<and> (o_arg opt = CARGS_ARG_OPTIONAL \<longrightarrow> spec_takes_next (argv ! nat (i + 1)))
        then apply_opt opt (Some (argv ! nat (i + 1))) (i + 2) w cs
        else apply_opt opt None (i + 1) w cs)
       \<and> (o_arg opt = CARGS_ARG_REQUIRED \<longrightarrow> i + 1 < argc)"
      using v True False
      by (cases "o_arg opt") (auto simp: opt_value_def next_token_def split: if_splits)
    show ?thesis
      unfolding True short_opts_last [OF ni] i2 f option.case
      using False r takes_next_spec [of "argv ! nat (i + 1)"]
      by (cases "o_arg opt") (simp_all split: scan.splits)
  next
    case ne: False
    have "val = Some rest" "\<not> used"
      using v False ne by (cases "o_arg opt"; simp add: opt_value_def)+
    then show ?thesis
      unfolding short_opts_attached [OF ni ne f False] using False
      by (simp split: scan.splits)
  qed
qed

lemma short_opts_flags:
  "cluster_flags env cmd allow_version pre \<Longrightarrow>
   short_opts env cmd argc argv allow_version path (pre @ q) j w cs =
     (case short_opts env cmd argc argv allow_version path pre j w cs of
        Next i' w' cs' \<Rightarrow> short_opts env cmd argc argv allow_version path q i' w' cs'
      | Abort rc w' \<Rightarrow> Abort rc w' | Intercepted w' \<Rightarrow> Intercepted w')"
proof (induction pre arbitrary: j w cs)
  case Nil
  show ?case by simp
next
  case (Cons x pre)
  from Cons.prems obtain opt where x: "\<not> intercepts_short env allow_version x"
    "cargs_find_short (cmd_opts cmd) x = Some opt" "o_arg opt = CARGS_ARG_NONE"
    and rest: "cluster_flags env cmd allow_version pre"
    by (auto simp: cluster_flags_def split: option.splits)
  show ?case
    unfolding append_Cons short_opts_flag_step [OF x]
    by (cases "apply_opt opt None j w cs") (simp_all add: Cons.IH [OF rest])
qed

lemma short_opts_flags_index:
  "cluster_flags env cmd allow_version pre \<Longrightarrow>
   short_opts env cmd argc argv allow_version path pre j w cs = Next i' w' cs' \<Longrightarrow> i' = j"
proof (induction pre arbitrary: j w cs)
  case Nil
  then show ?case by simp
next
  case (Cons x pre)
  from Cons.prems(1) obtain opt where x: "\<not> intercepts_short env allow_version x"
    "cargs_find_short (cmd_opts cmd) x = Some opt" "o_arg opt = CARGS_ARG_NONE"
    and rest: "cluster_flags env cmd allow_version pre"
    by (auto simp: cluster_flags_def split: option.splits)
  show ?case
  proof (cases "apply_opt opt None j w cs")
    case (Next j1 w1 cs1)
    then have "j1 = j" by (rule apply_opt_Next)
    with Cons.prems(2) Next Cons.IH [OF rest] show ?thesis
      unfolding short_opts_flag_step [OF x] by simp
  next
    case (Abort rc wa)
    with Cons.prems(2) show ?thesis unfolding short_opts_flag_step [OF x] by simp
  next
    case (Intercepted wa)
    with Cons.prems(2) show ?thesis unfolding short_opts_flag_step [OF x] by simp
  qed
qed

lemma scan_long_tok:
  assumes "0 \<le> i" "i < argc" "argv ! nat i = ''--'' @ name @ sfx" "name @ sfx \<noteq> []"
  shows "cargs_scan env cmd argc argv allow_version allow_author path i w counts =
     (case long_opt env cmd argc argv allow_version allow_author path i w counts of
        Next i' w' counts' \<Rightarrow>
          cargs_scan env cmd argc argv allow_version allow_author path i' w' counts'
      | Abort rc w' \<Rightarrow> Abort rc w' | Intercepted w' \<Rightarrow> Intercepted w')"
proof -
  have t: "argv ! nat i = ''--'' @ (name @ sfx)" using assms(3) by simp
  show ?thesis by (rule scan_long_step [OF assms(1,2) t assms(4)])
qed

lemma scan_cluster:
  assumes i: "0 \<le> i" "i < argc"
    and tok: "argv ! nat i = CHR ''-'' # pre @ x # rest" and hd: "hd (pre @ [x]) \<noteq> CHR ''-''"
    and fl: "cluster_flags env cmd allow_version pre"
    and ni: "\<not> intercepts_short env allow_version x"
    and f: "cargs_find_short (cmd_opts cmd) x = Some opt"
    and v: "opt_value (o_arg opt) (if o_arg opt = CARGS_ARG_NONE \<or> rest = [] then None else Some rest)
              (next_token argc argv i) = Some (val, used)"
  shows "cargs_scan env cmd argc argv allow_version allow_author path i w cs =
     (case short_opts env cmd argc argv allow_version path pre (i + 1) w cs of
        Next i0 w1 cs1 \<Rightarrow>
          (case apply_opt opt val (if used then i + 2 else i + 1) w1 cs1 of
             Next i' w' cs' \<Rightarrow>
               (case short_opts env cmd argc argv allow_version path
                       (if o_arg opt = CARGS_ARG_NONE then rest else []) i' w' cs' of
                  Next i'' w'' cs'' \<Rightarrow>
                    cargs_scan env cmd argc argv allow_version allow_author path i'' w'' cs''
                | Abort rc w' \<Rightarrow> Abort rc w' | Intercepted w' \<Rightarrow> Intercepted w')
           | Abort rc w' \<Rightarrow> Abort rc w' | Intercepted w' \<Rightarrow> Intercepted w')
      | Abort rc w' \<Rightarrow> Abort rc w' | Intercepted w' \<Rightarrow> Intercepted w')"
proof -
  obtain y p where yp: "pre @ x # rest = y # p" and y: "y \<noteq> CHR ''-''"
    using hd by (cases pre) auto
  have t: "argv ! nat i = CHR ''-'' # y # p" using tok yp by simp
  have s: "cargs_scan env cmd argc argv allow_version allow_author path i w cs =
     (case short_opts env cmd argc argv allow_version path (pre @ x # rest) (i + 1) w cs of
        Next i' w' counts' \<Rightarrow>
          cargs_scan env cmd argc argv allow_version allow_author path i' w' counts'
      | Abort rc w' \<Rightarrow> Abort rc w' | Intercepted w' \<Rightarrow> Intercepted w')"
    unfolding yp by (rule scan_short_step [OF i t y])
  show ?thesis
  proof (cases "short_opts env cmd argc argv allow_version path pre (i + 1) w cs")
    case (Next i0 w1 cs1)
    have i0: "i0 = i + 1" using short_opts_flags_index [OF fl Next] .
    show ?thesis
      unfolding s short_opts_flags [OF fl] Next i0 scan.case short_opts_value [OF ni f v]
      by (cases "apply_opt opt val (if used then i + 2 else i + 1) w1 cs1") simp_all
  next
    case (Abort rc wa)
    show ?thesis unfolding s short_opts_flags [OF fl] Abort by simp
  next
    case (Intercepted wa)
    show ?thesis unfolding s short_opts_flags [OF fl] Intercepted by simp
  qed
qed


text \<open>
  C4. Let an Optional-kind option be matched at index \<open>i\<close> without an attached value:
  by its long name, as the token \<^verbatim>\<open>--name\<close>, or by its short character \<open>x\<close> as the last
  character of a short cluster \<^verbatim>\<open>-...x\<close>, the characters before it being flags (a
  cluster that is just \<^verbatim>\<open>-x\<close> has none). The next token is taken exactly when there is
  one, it is not \<^verbatim>\<open>--\<close>, and it either does not start with \<^verbatim>\<open>-\<close> or looks numeric. If
  it is taken, the token loop applies the option with that token as its value and goes
  on behind it; otherwise, and so also when the option ends the command line, it
  applies the option with no value and goes on at the next token, which is left
  unconsumed. In a cluster the option is applied in the world and with the counters
  that the flags before it left. Applying an option that has a callback calls the
  callback once, with that value.
\<close>

theorem optional_lookahead:
  assumes "o_arg opt = CARGS_ARG_OPTIONAL"
    and "0 \<le> i" and "i < argc"
    and "takes = (i + 1 < argc \<and> spec_takes_next (argv ! nat (i + 1)))"
    and "val = (if takes then Some (argv ! nat (i + 1)) else None)"
    and "j = (if takes then i + 2 else i + 1)"
  shows "(argv ! nat i = ''--'' @ name \<and> name \<noteq> [] \<and> CHR ''='' \<notin> set name
            \<and> \<not> intercepts_long env allow_version allow_author name
            \<and> cargs_find_long (c_opts c) name = Some opt
          \<longrightarrow> cargs_scan env (Some c) argc argv allow_version allow_author path i w counts =
               (case apply_opt opt val j w counts of
                  Next i' w' counts' \<Rightarrow>
                    cargs_scan env (Some c) argc argv allow_version allow_author path i' w' counts'
                | Abort rc w' \<Rightarrow> Abort rc w' | Intercepted w' \<Rightarrow> Intercepted w'))
       \<and> (argv ! nat i = CHR ''-'' # pre @ [x] \<and> hd (pre @ [x]) \<noteq> CHR ''-''
            \<and> cluster_flags env (Some c) allow_version pre
            \<and> \<not> intercepts_short env allow_version x
            \<and> cargs_find_short (c_opts c) x = Some opt
          \<longrightarrow> cargs_scan env (Some c) argc argv allow_version allow_author path i w counts =
               (case short_opts env (Some c) argc argv allow_version path pre (i + 1) w counts of
                  Next i0 w1 counts1 \<Rightarrow>
                    (case apply_opt opt val j w1 counts1 of
                       Next i' w' counts' \<Rightarrow>
                         cargs_scan env (Some c) argc argv allow_version allow_author path i' w' counts'
                     | Abort rc w' \<Rightarrow> Abort rc w' | Intercepted w' \<Rightarrow> Intercepted w')
                | Abort rc w' \<Rightarrow> Abort rc w' | Intercepted w' \<Rightarrow> Intercepted w'))
       \<and> (o_cb opt = Some f
          \<longrightarrow> scan_world (apply_opt opt val j wa cs) =
               emit (CallCb (o_long_name opt) (o_short_name opt) val)
                 (wa\<lparr>user := snd (f val (user wa))\<rparr>))"
proof -
  have v: "opt_value (o_arg opt) None (next_token argc argv i) = Some (val, takes)"
    by (simp add: assms(1,4,5) opt_value_def next_token_def)
  have j: "(if takes then i + 2 else i + 1) = j" by (simp add: assms(6))
  have long: "cargs_scan env (Some c) argc argv allow_version allow_author path i w counts =
               (case apply_opt opt val j w counts of
                  Next i' w' counts' \<Rightarrow>
                    cargs_scan env (Some c) argc argv allow_version allow_author path i' w' counts'
                | Abort rc w' \<Rightarrow> Abort rc w' | Intercepted w' \<Rightarrow> Intercepted w')"
    if h: "argv ! nat i = ''--'' @ name" "name \<noteq> []" "CHR ''='' \<notin> set name"
      "\<not> intercepts_long env allow_version allow_author name"
      "cargs_find_long (c_opts c) name = Some opt"
  proof -
    have t: "argv ! nat i = ''--'' @ name @ (case None :: string option of None \<Rightarrow> [] | Some v \<Rightarrow> CHR ''='' # v)"
      using h(1) by simp
    have f: "cargs_find_long (cmd_opts (Some c)) name = Some opt"
      using h(5) by (simp add: cmd_opts_def)
    have "long_opt env (Some c) argc argv allow_version allow_author path i w counts =
          apply_opt opt val j w counts"
      using long_opt_value [OF h(4) t h(3) _ f v] j by simp
    then show ?thesis
      by (simp add: scan_long_step [OF assms(2,3) h(1,2)])
  qed
  have short: "cargs_scan env (Some c) argc argv allow_version allow_author path i w counts =
               (case short_opts env (Some c) argc argv allow_version path pre (i + 1) w counts of
                  Next i0 w1 counts1 \<Rightarrow>
                    (case apply_opt opt val j w1 counts1 of
                       Next i' w' counts' \<Rightarrow>
                         cargs_scan env (Some c) argc argv allow_version allow_author path i' w' counts'
                     | Abort rc w' \<Rightarrow> Abort rc w' | Intercepted w' \<Rightarrow> Intercepted w')
                | Abort rc w' \<Rightarrow> Abort rc w' | Intercepted w' \<Rightarrow> Intercepted w')"
    if h: "argv ! nat i = CHR ''-'' # pre @ [x]" "hd (pre @ [x]) \<noteq> CHR ''-''"
      "cluster_flags env (Some c) allow_version pre"
      "\<not> intercepts_short env allow_version x"
      "cargs_find_short (c_opts c) x = Some opt"
  proof -
    have f: "cargs_find_short (cmd_opts (Some c)) x = Some opt"
      using h(5) by (simp add: cmd_opts_def)
    have v': "opt_value (o_arg opt)
        (if o_arg opt = CARGS_ARG_NONE \<or> ([] :: string) = [] then None else Some [])
        (next_token argc argv i) = Some (val, takes)"
      using v by simp
    show ?thesis
      unfolding scan_cluster [OF assms(2,3) h(1,2,3,4) f v'] j
      by (simp add: assms(1) split: scan.splits)
  qed
  show ?thesis
    using long short by (simp add: apply_opt_world)
qed

theorem optional_lookahead_witness:
  "cargs_scan (Some env_all) (Some limit_cmd) 3 [''t'', ''--limit'', ''-.5''] True True [] 1 w0
       (replicate MAXG 0)
     = Next 3 \<lparr>user = [''limit=-.5''], events = [CallCb (Some ''limit'') (CHR ''l'') (Some ''-.5'')]\<rparr>
         (replicate MAXG 0)
   \<and> cargs_scan (Some env_all) (Some limit_cmd) 3 [''t'', ''-l'', ''-V''] True True [] 1 w0
       (replicate MAXG 0)
     = Next 3 \<lparr>user = [''limit'', ''verbose''],
               events = [CallCb (Some ''limit'') (CHR ''l'') None,
                         CallCb (Some ''verbose'') (CHR ''V'') None]\<rparr>
         (replicate MAXG 0)
   \<and> cargs_scan (Some env_all) (Some limit_cmd) 3 [''t'', ''-Vl'', ''12''] True True [] 1 w0
       (replicate MAXG 0)
     = Next 3 \<lparr>user = [''verbose'', ''limit=12''],
               events = [CallCb (Some ''verbose'') (CHR ''V'') None,
                         CallCb (Some ''limit'') (CHR ''l'') (Some ''12'')]\<rparr>
         (replicate MAXG 0)
   \<and> cargs_scan (Some env_all) (Some limit_cmd) 2 [''t'', ''-l''] True True [] 1 w0
       (replicate MAXG 0)
     = Next 2 \<lparr>user = [''limit''], events = [CallCb (Some ''limit'') (CHR ''l'') None]\<rparr>
         (replicate MAXG 0)
   \<and> cargs_scan (Some env_all) (Some limit_cmd) 3 [''t'', ''--limit'', ''--''] True True [] 1 w0
       (replicate MAXG 0)
     = Next 3 \<lparr>user = [''limit''], events = [CallCb (Some ''limit'') (CHR ''l'') None]\<rparr>
         (replicate MAXG 0)"
proof -
  let ?opt = "mk_opt ''limit'' (CHR ''l'') CARGS_ARG_OPTIONAL None 0 0"
  let ?e = "Some env_all"
  let ?z = "replicate MAXG (0 :: 8 word)"
  have k: "o_arg ?opt = CARGS_ARG_OPTIONAL" by (simp add: mk_opt_def)
  have t: "True = ((1::int) + 1 < 3 \<and> spec_takes_next ([''t'', ''--limit'', ''-.5''] ! nat (1 + 1)))"
    "False = ((1::int) + 1 < 3 \<and> spec_takes_next ([''t'', ''-l'', ''-V''] ! nat (1 + 1)))"
    "True = ((1::int) + 1 < 3 \<and> spec_takes_next ([''t'', ''-Vl'', ''12''] ! nat (1 + 1)))"
    "False = ((1::int) + 1 < 2 \<and> spec_takes_next ([''t'', ''-l''] ! nat (1 + 1)))"
    "False = ((1::int) + 1 < 3 \<and> spec_takes_next ([''t'', ''--limit'', ''--''] ! nat (1 + 1)))"
    by (simp_all add: spec_takes_next_def spec_looks_numeric_def isdigit_def)
  have l: "argv ! nat 1 = ''--'' @ ''limit'' \<and> ''limit'' \<noteq> [] \<and> CHR ''='' \<notin> set ''limit''
      \<and> \<not> intercepts_long ?e True True ''limit''
      \<and> cargs_find_long (c_opts limit_cmd) ''limit'' = Some ?opt"
    if "argv ! 1 = ''--limit''" for argv :: "string list"
    using that by (simp add: intercepts_long_def limit_cmd_def mk_opt_def)
  have s: "argv ! nat 1 = CHR ''-'' # pre @ [CHR ''l''] \<and> hd (pre @ [CHR ''l'']) \<noteq> CHR ''-''
      \<and> cluster_flags ?e (Some limit_cmd) True pre
      \<and> \<not> intercepts_short ?e True (CHR ''l'')
      \<and> cargs_find_short (c_opts limit_cmd) (CHR ''l'') = Some ?opt"
    if "argv ! 1 = CHR ''-'' # pre @ [CHR ''l'']" "pre = [] \<or> pre = ''V''"
    for argv :: "string list" and pre
    using that
    by (auto simp: cluster_flags_def intercepts_short_def cmd_opts_def limit_cmd_def
          mk_opt_def cargs_find_short_def)
  note L = optional_lookahead [THEN conjunct1, rule_format, OF k _ _ _ refl refl,
      where env = ?e and allow_version = True and allow_author = True and path = "[]"
        and w = w0 and counts = ?z and c = limit_cmd]
  note S = optional_lookahead [THEN conjunct2, THEN conjunct1, rule_format, OF k _ _ _ refl refl,
      where env = ?e and allow_version = True and allow_author = True and path = "[]"
        and w = w0 and counts = ?z and c = limit_cmd]
  note e1 = L [OF _ _ t(1) l] and e2 = S [OF _ _ t(2) s, where pre = "[]"]
    and e3 = S [OF _ _ t(3) s, where pre = "''V''"] and e4 = S [OF _ _ t(4) s, where pre = "[]"]
    and e5 = L [OF _ _ t(5) l]
  have a1: "cargs_scan ?e (Some limit_cmd) 3 [''t'', ''--limit'', ''-.5''] True True [] 1 w0 ?z
     = Next 3 \<lparr>user = [''limit=-.5''], events = [CallCb (Some ''limit'') (CHR ''l'') (Some ''-.5'')]\<rparr> ?z"
    by (subst e1) (simp_all, code_simp)
  have a2: "cargs_scan ?e (Some limit_cmd) 3 [''t'', ''-l'', ''-V''] True True [] 1 w0 ?z
     = Next 3 \<lparr>user = [''limit'', ''verbose''],
               events = [CallCb (Some ''limit'') (CHR ''l'') None,
                         CallCb (Some ''verbose'') (CHR ''V'') None]\<rparr> ?z"
    by (subst e2) (simp_all, code_simp)
  have a3: "cargs_scan ?e (Some limit_cmd) 3 [''t'', ''-Vl'', ''12''] True True [] 1 w0 ?z
     = Next 3 \<lparr>user = [''verbose'', ''limit=12''],
               events = [CallCb (Some ''verbose'') (CHR ''V'') None,
                         CallCb (Some ''limit'') (CHR ''l'') (Some ''12'')]\<rparr> ?z"
    by (subst e3) (simp_all, code_simp)
  have a4: "cargs_scan ?e (Some limit_cmd) 2 [''t'', ''-l''] True True [] 1 w0 ?z
     = Next 2 \<lparr>user = [''limit''], events = [CallCb (Some ''limit'') (CHR ''l'') None]\<rparr> ?z"
    by (subst e4) (simp_all, code_simp)
  have a5: "cargs_scan ?e (Some limit_cmd) 3 [''t'', ''--limit'', ''--''] True True [] 1 w0 ?z
     = Next 3 \<lparr>user = [''limit''], events = [CallCb (Some ''limit'') (CHR ''l'') None]\<rparr> ?z"
    by (subst e5) (simp_all, code_simp)
  show ?thesis
    using a1 a2 a3 a4 a5 by simp
qed


subsection \<open>Environment and default overlay\<close>

lemma overlay_value_loop:
  "(let val0 = (case o_env opt of None \<Rightarrow> None | Some e \<Rightarrow> getenv e)
    in if val0 = None \<and> o_def opt \<noteq> None then o_def opt else val0) = overlay_value getenv opt"
  by (auto simp: overlay_value_def Let_def split: option.splits)

lemma env_defaults_loop_step:
  "env_defaults_loop getenv (opt # opts) len w counts =
     (if overlaid getenv opt
      then env_defaults_loop getenv opts len
             (snd (invoke_cb opt (overlay_value getenv opt) w)) (count_group opt len counts)
      else env_defaults_loop getenv opts len w counts)"
  using overlay_value_loop [where opt = opt and getenv = getenv]
  by (simp add: Let_def overlaid_def)

lemma invoke_cb_events:
  "o_cb opt \<noteq> None \<Longrightarrow>
   events (snd (invoke_cb opt val w)) = events w @ [CallCb (o_long_name opt) (o_short_name opt) val]"
  by (auto simp: invoke_cb_def emit_def split: prod.splits)

lemma env_defaults_loop_events:
  "events (fst (env_defaults_loop getenv opts len w counts)) =
     events w @ map (\<lambda>opt. CallCb (o_long_name opt) (o_short_name opt) (overlay_value getenv opt))
                  (filter (overlaid getenv) opts)"
proof (induction opts arbitrary: w counts)
  case Nil
  show ?case by simp
next
  case (Cons opt opts)
  show ?case
    unfolding env_defaults_loop_step
    by (simp add: Cons.IH invoke_cb_events overlaid_def)
qed

lemma count_group_length: "length (count_group opt len counts) = length counts"
  by (simp add: count_group_def)

lemma count_group_nth:
  "g < length counts \<Longrightarrow> 0 < g \<Longrightarrow> g < len \<Longrightarrow>
   count_group opt len counts ! g = counts ! g + (if unat (o_group opt) = g then 1 else 0)"
  by (auto simp: count_group_def unat_eq_0)

lemma env_defaults_loop_counts:
  "g < length counts \<Longrightarrow> 0 < g \<Longrightarrow> g < len \<Longrightarrow>
   snd (env_defaults_loop getenv opts len w counts) ! g =
     counts ! g + of_nat (length (filter (\<lambda>opt. overlaid getenv opt \<and> unat (o_group opt) = g) opts))"
proof (induction opts arbitrary: w counts)
  case Nil
  show ?case by simp
next
  case (Cons opt opts)
  show ?case
    unfolding env_defaults_loop_step using Cons.prems
    by (simp add: Cons.IH count_group_length count_group_nth)
qed


lemma env_defaults_loop_length:
  "length (snd (env_defaults_loop getenv opts len w counts)) = length counts"
proof (induction opts arbitrary: w counts)
  case Nil
  show ?case by simp
next
  case (Cons opt opts)
  show ?case
    unfolding env_defaults_loop_step by (simp add: Cons.IH count_group_length)
qed

lemma apply_opt_accept:
  "0 \<le> fst (invoke_cb opt val wa) \<Longrightarrow>
   apply_opt opt val j wa cs = Next j (snd (invoke_cb opt val wa)) (count_group opt MAXG cs)"
  by (cases "invoke_cb opt val wa") (simp add: apply_opt_def)

lemma count_group_own:
  "0 < unat (o_group opt) \<Longrightarrow> unat (o_group opt) < len \<Longrightarrow>
   count_group opt len cs = cs[unat (o_group opt) := cs ! unat (o_group opt) + 1]"
  by (auto simp: count_group_def)

text \<open>
  C6. The overlay of a level, run from zeroed counters, calls the callbacks of exactly
  the options that have a value (the environment variable's when set, else the static
  default) and a callback, in declaration order, each with that value; afterwards the
  counter of every group 1..32 is the number of such options in the group. The level
  parse runs its token loop from the world and the counters the overlay left. An
  explicit match of an option, at any token index and from whatever world and counters
  the loop has reached, is one application of the option: in the long form (\<^verbatim>\<open>--name\<close>
  of a flag, \<^verbatim>\<open>--name value\<close>, \<^verbatim>\<open>--name=value\<close>, an Optional \<^verbatim>\<open>--name\<close> with or without
  the next token) and in the short form (a character of a cluster behind flags, as a
  flag, with the rest of the token attached, with the next token, or an Optional one
  without a value), after which the cluster and the loop go on. An application whose
  callback does not fail leaves the counters with the counter of the option's group
  \<open>g\<close> one higher and nothing else changed, so the overlay's count is not taken back:
  applied to the counters the overlay left, the counter of \<open>g\<close> is one more than the
  number of overlaid options of the group, 2 when the overlay counted one.
\<close>

theorem overlay_counts_then_explicit_match:
  assumes "ov = cargs_apply_env_defaults_level getenv (Some c) w (replicate MAXG 0) MAXG"
    and "g = unat (o_group opt)"
    and "n = length (filter (\<lambda>p. overlaid getenv p \<and> unat (o_group p) = g) (c_opts c))"
    and "j = (if used then i + 2 else i + 1)"
  shows "events (fst ov) =
           events w @ map (\<lambda>p. CallCb (o_long_name p) (o_short_name p) (overlay_value getenv p))
                        (filter (overlaid getenv) (c_opts c))
       \<and> (\<forall>k. 0 < k \<and> k < MAXG \<longrightarrow>
             snd ov ! k =
               of_nat (length (filter (\<lambda>p. overlaid getenv p \<and> unat (o_group p) = k) (c_opts c))))
       \<and> cargs_parse_opts_level getenv env (Some c) argc argv idx w allow_version allow_author path =
           (case cargs_scan env (Some c) argc argv allow_version allow_author path idx
                   (fst ov) (snd ov) of
              Abort rc w' \<Rightarrow> (rc, idx, w')
            | Intercepted w' \<Rightarrow> (CARGS_DONE, argc, w')
            | Next i w' counts \<Rightarrow>
                if enforce_groups (fst (group_masks (c_opts c) (0, 0)))
                     (snd (group_masks (c_opts c) (0, 0))) counts [1..<MAXG] < 0
                then (CARGS_ERR_GROUP, idx, w') else (CARGS_OK, i, w'))
       \<and> (0 \<le> i \<and> i < argc
            \<and> argv ! nat i = ''--'' @ name @ (case att of None \<Rightarrow> [] | Some v \<Rightarrow> CHR ''='' # v)
            \<and> (att = None \<longrightarrow> name \<noteq> []) \<and> (att \<noteq> None \<longrightarrow> length name < 96)
            \<and> CHR ''='' \<notin> set name
            \<and> \<not> intercepts_long env allow_version allow_author name
            \<and> cargs_find_long (c_opts c) name = Some opt
            \<and> opt_value (o_arg opt) att (next_token argc argv i) = Some (val, used)
          \<longrightarrow> cargs_scan env (Some c) argc argv allow_version allow_author path i wa cs =
               (case apply_opt opt val j wa cs of
                  Next i' w' cs' \<Rightarrow>
                    cargs_scan env (Some c) argc argv allow_version allow_author path i' w' cs'
                | Abort rc w' \<Rightarrow> Abort rc w' | Intercepted w' \<Rightarrow> Intercepted w'))
       \<and> (0 \<le> i \<and> i < argc
            \<and> argv ! nat i = CHR ''-'' # pre @ x # rest \<and> hd (pre @ [x]) \<noteq> CHR ''-''
            \<and> cluster_flags env (Some c) allow_version pre
            \<and> \<not> intercepts_short env allow_version x
            \<and> cargs_find_short (c_opts c) x = Some opt
            \<and> opt_value (o_arg opt)
                 (if o_arg opt = CARGS_ARG_NONE \<or> rest = [] then None else Some rest)
                 (next_token argc argv i) = Some (val, used)
          \<longrightarrow> cargs_scan env (Some c) argc argv allow_version allow_author path i wa cs =
               (case short_opts env (Some c) argc argv allow_version path pre (i + 1) wa cs of
                  Next i0 w1 cs1 \<Rightarrow>
                    (case apply_opt opt val j w1 cs1 of
                       Next i' w' cs' \<Rightarrow>
                         (case short_opts env (Some c) argc argv allow_version path
                                 (if o_arg opt = CARGS_ARG_NONE then rest else []) i' w' cs' of
                            Next i'' w'' cs'' \<Rightarrow>
                              cargs_scan env (Some c) argc argv allow_version allow_author path
                                i'' w'' cs''
                          | Abort rc w' \<Rightarrow> Abort rc w' | Intercepted w' \<Rightarrow> Intercepted w')
                     | Abort rc w' \<Rightarrow> Abort rc w' | Intercepted w' \<Rightarrow> Intercepted w')
                | Abort rc w' \<Rightarrow> Abort rc w' | Intercepted w' \<Rightarrow> Intercepted w'))
       \<and> (0 \<le> fst (invoke_cb opt val wa)
          \<longrightarrow> apply_opt opt val j wa cs =
                Next j (snd (invoke_cb opt val wa)) (count_group opt MAXG cs))
       \<and> (0 < g \<and> g < MAXG
          \<longrightarrow> count_group opt MAXG cs = cs[g := cs ! g + 1]
              \<and> count_group opt MAXG (snd ov) ! g = of_nat n + 1
              \<and> (n = 1 \<longrightarrow> count_group opt MAXG (snd ov) ! g = 2))"
proof -
  have ov: "ov = env_defaults_loop getenv (c_opts c) MAXG w (replicate MAXG 0)"
    by (simp add: assms(1) cargs_apply_env_defaults_level_def)
  have len: "length (snd ov) = MAXG"
    by (simp add: ov env_defaults_loop_length)
  have cnt: "snd ov ! k =
      of_nat (length (filter (\<lambda>p. overlaid getenv p \<and> unat (o_group p) = k) (c_opts c)))"
    if "0 < k" "k < MAXG" for k
    using that by (simp add: ov env_defaults_loop_counts)
  have p1: "events (fst ov) =
           events w @ map (\<lambda>p. CallCb (o_long_name p) (o_short_name p) (overlay_value getenv p))
                        (filter (overlaid getenv) (c_opts c))"
    by (simp add: ov env_defaults_loop_events)
  have p3: "cargs_parse_opts_level getenv env (Some c) argc argv idx w allow_version allow_author path =
           (case cargs_scan env (Some c) argc argv allow_version allow_author path idx
                   (fst ov) (snd ov) of
              Abort rc w' \<Rightarrow> (rc, idx, w')
            | Intercepted w' \<Rightarrow> (CARGS_DONE, argc, w')
            | Next i w' counts \<Rightarrow>
                if enforce_groups (fst (group_masks (c_opts c) (0, 0)))
                     (snd (group_masks (c_opts c) (0, 0))) counts [1..<MAXG] < 0
                then (CARGS_ERR_GROUP, idx, w') else (CARGS_OK, i, w'))"
    by (simp add: cargs_parse_opts_level_def assms(1) cmd_opts_def case_prod_beta)
  have j: "(if used then i + 2 else i + 1) = j" by (simp add: assms(4))
  have p4: "cargs_scan env (Some c) argc argv allow_version allow_author path i wa cs =
               (case apply_opt opt val j wa cs of
                  Next i' w' cs' \<Rightarrow>
                    cargs_scan env (Some c) argc argv allow_version allow_author path i' w' cs'
                | Abort rc w' \<Rightarrow> Abort rc w' | Intercepted w' \<Rightarrow> Intercepted w')"
    if h: "0 \<le> i" "i < argc"
      "argv ! nat i = ''--'' @ name @ (case att of None \<Rightarrow> [] | Some v \<Rightarrow> CHR ''='' # v)"
      "att = None \<longrightarrow> name \<noteq> []" "att \<noteq> None \<longrightarrow> length name < 96"
      "CHR ''='' \<notin> set name"
      "\<not> intercepts_long env allow_version allow_author name"
      "cargs_find_long (c_opts c) name = Some opt"
      "opt_value (o_arg opt) att (next_token argc argv i) = Some (val, used)"
  proof -
    have f: "cargs_find_long (cmd_opts (Some c)) name = Some opt"
      using h(8) by (simp add: cmd_opts_def)
    have ne: "name @ (case att of None \<Rightarrow> [] | Some v \<Rightarrow> CHR ''='' # v) \<noteq> []"
      using h(4) by (cases att) simp_all
    show ?thesis
      unfolding scan_long_tok [OF h(1,2,3) ne] long_opt_value [OF h(7,3,6,5) f h(9)] j ..
  qed
  have p5: "cargs_scan env (Some c) argc argv allow_version allow_author path i wa cs =
               (case short_opts env (Some c) argc argv allow_version path pre (i + 1) wa cs of
                  Next i0 w1 cs1 \<Rightarrow>
                    (case apply_opt opt val j w1 cs1 of
                       Next i' w' cs' \<Rightarrow>
                         (case short_opts env (Some c) argc argv allow_version path
                                 (if o_arg opt = CARGS_ARG_NONE then rest else []) i' w' cs' of
                            Next i'' w'' cs'' \<Rightarrow>
                              cargs_scan env (Some c) argc argv allow_version allow_author path
                                i'' w'' cs''
                          | Abort rc w' \<Rightarrow> Abort rc w' | Intercepted w' \<Rightarrow> Intercepted w')
                     | Abort rc w' \<Rightarrow> Abort rc w' | Intercepted w' \<Rightarrow> Intercepted w')
                | Abort rc w' \<Rightarrow> Abort rc w' | Intercepted w' \<Rightarrow> Intercepted w')"
    if h: "0 \<le> i" "i < argc"
      "argv ! nat i = CHR ''-'' # pre @ x # rest" "hd (pre @ [x]) \<noteq> CHR ''-''"
      "cluster_flags env (Some c) allow_version pre"
      "\<not> intercepts_short env allow_version x"
      "cargs_find_short (c_opts c) x = Some opt"
      "opt_value (o_arg opt)
         (if o_arg opt = CARGS_ARG_NONE \<or> rest = [] then None else Some rest)
         (next_token argc argv i) = Some (val, used)"
  proof -
    have f: "cargs_find_short (cmd_opts (Some c)) x = Some opt"
      using h(7) by (simp add: cmd_opts_def)
    show ?thesis
      unfolding scan_cluster [OF h(1-6) f h(8)] j ..
  qed
  have p6: "apply_opt opt val j wa cs =
                Next j (snd (invoke_cb opt val wa)) (count_group opt MAXG cs)"
    if "0 \<le> fst (invoke_cb opt val wa)"
    using that by (rule apply_opt_accept)
  have p7: "count_group opt MAXG cs = cs[g := cs ! g + 1]
              \<and> count_group opt MAXG (snd ov) ! g = of_nat n + 1
              \<and> (n = 1 \<longrightarrow> count_group opt MAXG (snd ov) ! g = 2)"
    if h: "0 < g" "g < MAXG"
  proof -
    have own: "count_group opt MAXG xs = xs[g := xs ! g + 1]" for xs
      using h unfolding assms(2) by (rule count_group_own)
    have "count_group opt MAXG (snd ov) ! g = of_nat n + 1"
      using h len by (simp add: own cnt assms(3))
    then show ?thesis using own by auto
  qed
  show ?thesis
    using p1 cnt p3 p4 p5 p6 p7 by blast
qed


theorem overlay_counts_then_explicit_match_witness:
  "events (fst (cargs_apply_env_defaults_level fmt_env (Some overlay_cmd) w0 (replicate MAXG 0) MAXG))
     = [CallCb (Some ''jobs'') (CHR ''j'') (Some ''4''),
        CallCb (Some ''format'') (CHR ''f'') (Some ''yaml''),
        CallCb (Some ''color'') (CHR ''C'') (Some ''on'')]
   \<and> snd (cargs_apply_env_defaults_level fmt_env (Some overlay_cmd) w0 (replicate MAXG 0) MAXG) ! 1 = 1
   \<and> count_group ((mk_opt ''format'' (CHR ''f'') CARGS_ARG_REQUIRED (Some ''json'') 1 CARGS_GRP_XOR)
          \<lparr>o_env := Some ''FMT''\<rparr>) MAXG
        (snd (cargs_apply_env_defaults_level fmt_env (Some overlay_cmd) w0 (replicate MAXG 0) MAXG)) ! 1
      = 2
   \<and> cargs_parse_opts_level fmt_env (Some env_all) (Some overlay_cmd) 2 [''t'', ''--format=json''] 1
         w0 True True []
     = (CARGS_ERR_GROUP, 1,
        \<lparr>user = [''jobs=4'', ''format=yaml'', ''color=on'', ''format=json''],
         events = [CallCb (Some ''jobs'') (CHR ''j'') (Some ''4''),
                   CallCb (Some ''format'') (CHR ''f'') (Some ''yaml''),
                   CallCb (Some ''color'') (CHR ''C'') (Some ''on''),
                   CallCb (Some ''format'') (CHR ''f'') (Some ''json'')]\<rparr>)
   \<and> cargs_parse_opts_level fmt_env (Some env_all) (Some overlay_cmd) 3 [''t'', ''-Vf'', ''json''] 1
         w0 True True []
     = (CARGS_ERR_GROUP, 1,
        \<lparr>user = [''jobs=4'', ''format=yaml'', ''color=on'', ''verbose'', ''format=json''],
         events = [CallCb (Some ''jobs'') (CHR ''j'') (Some ''4''),
                   CallCb (Some ''format'') (CHR ''f'') (Some ''yaml''),
                   CallCb (Some ''color'') (CHR ''C'') (Some ''on''),
                   CallCb (Some ''verbose'') (CHR ''V'') None,
                   CallCb (Some ''format'') (CHR ''f'') (Some ''json'')]\<rparr>)
   \<and> cargs_parse_opts_level fmt_env (Some env_all) (Some overlay_cmd) 2 [''t'', ''--color''] 1
         w0 True True []
     = (CARGS_ERR_GROUP, 1,
        \<lparr>user = [''jobs=4'', ''format=yaml'', ''color=on'', ''color''],
         events = [CallCb (Some ''jobs'') (CHR ''j'') (Some ''4''),
                   CallCb (Some ''format'') (CHR ''f'') (Some ''yaml''),
                   CallCb (Some ''color'') (CHR ''C'') (Some ''on''),
                   CallCb (Some ''color'') (CHR ''C'') None]\<rparr>)
   \<and> cargs_scan (Some env_all) (Some overlay_cmd) 4 [''t'', ''-j'', ''2'', ''-VC''] True True [] 3
         \<lparr>user = [''jobs=4'', ''format=yaml'', ''color=on'', ''jobs=2''], events = []\<rparr>
         (snd (cargs_apply_env_defaults_level fmt_env (Some overlay_cmd) w0 (replicate MAXG 0) MAXG))
     = Next 4
         \<lparr>user = [''jobs=4'', ''format=yaml'', ''color=on'', ''jobs=2'', ''verbose'', ''color''],
          events = [CallCb (Some ''verbose'') (CHR ''V'') None,
                    CallCb (Some ''color'') (CHR ''C'') None]\<rparr>
         ((snd (cargs_apply_env_defaults_level fmt_env (Some overlay_cmd) w0 (replicate MAXG 0) MAXG))
            [2 := 2])"
proof -
  let ?fmt = "(mk_opt ''format'' (CHR ''f'') CARGS_ARG_REQUIRED (Some ''json'') 1 CARGS_GRP_XOR)
          \<lparr>o_env := Some ''FMT''\<rparr>"
  let ?col = "mk_opt ''color'' (CHR ''C'') CARGS_ARG_NONE (Some ''on'') 2 CARGS_GRP_XOR"
  let ?ov = "cargs_apply_env_defaults_level fmt_env (Some overlay_cmd) w0 (replicate MAXG 0) MAXG"
  let ?e = "Some env_all"
  have gf: "(1::nat) = unat (o_group ?fmt)" and gc: "(2::nat) = unat (o_group ?col)"
    by (simp_all add: mk_opt_def)
  have nf: "(1::nat) = length (filter (\<lambda>p. overlaid fmt_env p \<and> unat (o_group p) = 1) (c_opts overlay_cmd))"
    and nc: "(1::nat) = length (filter (\<lambda>p. overlaid fmt_env p \<and> unat (o_group p) = 2) (c_opts overlay_cmd))"
    by (simp_all add: overlay_cmd_def mk_opt_def overlaid_def overlay_value_def fmt_env_def)
  have ovl: "filter (overlaid fmt_env) (c_opts overlay_cmd) =
      [mk_opt ''jobs'' (CHR ''j'') CARGS_ARG_REQUIRED (Some ''4'') 0 0, ?fmt, ?col]"
    by (simp add: overlay_cmd_def mk_opt_def overlaid_def overlay_value_def fmt_env_def)
  have vals: "overlay_value fmt_env (mk_opt ''jobs'' (CHR ''j'') CARGS_ARG_REQUIRED (Some ''4'') 0 0)
               = Some ''4''"
    "overlay_value fmt_env ?fmt = Some ''yaml''" "overlay_value fmt_env ?col = Some ''on''"
    by (simp_all add: mk_opt_def overlay_value_def fmt_env_def)
  note F = overlay_counts_then_explicit_match [OF refl gf nf refl,
      where w = w0 and env = ?e and allow_version = True and allow_author = True and path = "[]"]
  note C = overlay_counts_then_explicit_match [OF refl gc nc refl,
      where w = w0 and env = ?e and allow_version = True and allow_author = True and path = "[]"]
  note F3 = F [THEN conjunct2, THEN conjunct2, THEN conjunct1]
  note F4 = F [THEN conjunct2, THEN conjunct2, THEN conjunct2, THEN conjunct1, rule_format]
  note F5 = F [THEN conjunct2, THEN conjunct2, THEN conjunct2, THEN conjunct2, THEN conjunct1,
      rule_format]
  note F7 = F [THEN conjunct2, THEN conjunct2, THEN conjunct2, THEN conjunct2, THEN conjunct2,
      THEN conjunct2, rule_format]
  note C4 = C [THEN conjunct2, THEN conjunct2, THEN conjunct2, THEN conjunct1, rule_format]
  note C5 = C [THEN conjunct2, THEN conjunct2, THEN conjunct2, THEN conjunct2, THEN conjunct1,
      rule_format]
  have a: "events (fst ?ov)
     = [CallCb (Some ''jobs'') (CHR ''j'') (Some ''4''),
        CallCb (Some ''format'') (CHR ''f'') (Some ''yaml''),
        CallCb (Some ''color'') (CHR ''C'') (Some ''on'')]"
    unfolding F [THEN conjunct1] ovl by (simp add: vals) (simp add: mk_opt_def w0_def)
  have b: "snd ?ov ! 1 = 1"
    using F [THEN conjunct2, THEN conjunct1, rule_format, of 1] nf by (simp add: MAXG_def)
  have g1: "0 < (1::nat) \<and> 1 < MAXG" by (simp add: MAXG_def)
  have c: "count_group ?fmt MAXG (snd ?ov) ! 1 = 2"
    using F7 [where cs = "[]", OF g1] by simp
  have h1: "0 \<le> (1::int) \<and> (1::int) < 2
      \<and> [''t'', ''--format=json''] ! nat 1
          = ''--'' @ ''format'' @ (case Some ''json'' of None \<Rightarrow> [] | Some v \<Rightarrow> CHR ''='' # v)
      \<and> (Some ''json'' = None \<longrightarrow> ''format'' \<noteq> [])
      \<and> (Some ''json'' \<noteq> None \<longrightarrow> length ''format'' < 96)
      \<and> CHR ''='' \<notin> set ''format''
      \<and> \<not> intercepts_long ?e True True ''format''
      \<and> cargs_find_long (c_opts overlay_cmd) ''format'' = Some ?fmt
      \<and> opt_value (o_arg ?fmt) (Some ''json'') (next_token 2 [''t'', ''--format=json''] 1)
          = Some (Some ''json'', False)"
    by (simp add: overlay_cmd_def mk_opt_def intercepts_long_def opt_value_def)
  have h2: "0 \<le> (1::int) \<and> (1::int) < 3
      \<and> [''t'', ''-Vf'', ''json''] ! nat 1 = CHR ''-'' # ''V'' @ CHR ''f'' # []
      \<and> hd (''V'' @ [CHR ''f'']) \<noteq> CHR ''-''
      \<and> cluster_flags ?e (Some overlay_cmd) True ''V''
      \<and> \<not> intercepts_short ?e True (CHR ''f'')
      \<and> cargs_find_short (c_opts overlay_cmd) (CHR ''f'') = Some ?fmt
      \<and> opt_value (o_arg ?fmt)
           (if o_arg ?fmt = CARGS_ARG_NONE \<or> ([] :: string) = [] then None else Some [])
           (next_token 3 [''t'', ''-Vf'', ''json''] 1) = Some (Some ''json'', True)"
    by (simp add: overlay_cmd_def mk_opt_def intercepts_short_def opt_value_def next_token_def
          cluster_flags_def cmd_opts_def cargs_find_short_def)
  have h3: "0 \<le> (1::int) \<and> (1::int) < 2
      \<and> [''t'', ''--color''] ! nat 1
          = ''--'' @ ''color'' @ (case None :: string option of None \<Rightarrow> [] | Some v \<Rightarrow> CHR ''='' # v)
      \<and> ((None :: string option) = None \<longrightarrow> ''color'' \<noteq> [])
      \<and> ((None :: string option) \<noteq> None \<longrightarrow> length ''color'' < 96)
      \<and> CHR ''='' \<notin> set ''color''
      \<and> \<not> intercepts_long ?e True True ''color''
      \<and> cargs_find_long (c_opts overlay_cmd) ''color'' = Some ?col
      \<and> opt_value (o_arg ?col) None (next_token 2 [''t'', ''--color''] 1) = Some (None, False)"
    by (simp add: overlay_cmd_def mk_opt_def intercepts_long_def opt_value_def)
  have h4: "0 \<le> (3::int) \<and> (3::int) < 4
      \<and> [''t'', ''-j'', ''2'', ''-VC''] ! nat 3 = CHR ''-'' # ''V'' @ CHR ''C'' # []
      \<and> hd (''V'' @ [CHR ''C'']) \<noteq> CHR ''-''
      \<and> cluster_flags ?e (Some overlay_cmd) True ''V''
      \<and> \<not> intercepts_short ?e True (CHR ''C'')
      \<and> cargs_find_short (c_opts overlay_cmd) (CHR ''C'') = Some ?col
      \<and> opt_value (o_arg ?col)
           (if o_arg ?col = CARGS_ARG_NONE \<or> ([] :: string) = [] then None else Some [])
           (next_token 4 [''t'', ''-j'', ''2'', ''-VC''] 3) = Some (None, False)"
    by (simp add: overlay_cmd_def mk_opt_def intercepts_short_def opt_value_def next_token_def
          cluster_flags_def cmd_opts_def cargs_find_short_def)
  have d: "cargs_parse_opts_level fmt_env ?e (Some overlay_cmd) 2 [''t'', ''--format=json''] 1
         w0 True True []
     = (CARGS_ERR_GROUP, 1,
        \<lparr>user = [''jobs=4'', ''format=yaml'', ''color=on'', ''format=json''],
         events = [CallCb (Some ''jobs'') (CHR ''j'') (Some ''4''),
                   CallCb (Some ''format'') (CHR ''f'') (Some ''yaml''),
                   CallCb (Some ''color'') (CHR ''C'') (Some ''on''),
                   CallCb (Some ''format'') (CHR ''f'') (Some ''json'')]\<rparr>)"
    by (subst F3, subst F4 [OF h1], code_simp)
  have e: "cargs_parse_opts_level fmt_env ?e (Some overlay_cmd) 3 [''t'', ''-Vf'', ''json''] 1
         w0 True True []
     = (CARGS_ERR_GROUP, 1,
        \<lparr>user = [''jobs=4'', ''format=yaml'', ''color=on'', ''verbose'', ''format=json''],
         events = [CallCb (Some ''jobs'') (CHR ''j'') (Some ''4''),
                   CallCb (Some ''format'') (CHR ''f'') (Some ''yaml''),
                   CallCb (Some ''color'') (CHR ''C'') (Some ''on''),
                   CallCb (Some ''verbose'') (CHR ''V'') None,
                   CallCb (Some ''format'') (CHR ''f'') (Some ''json'')]\<rparr>)"
    by (subst F3, subst F5 [OF h2], code_simp)
  have f: "cargs_parse_opts_level fmt_env ?e (Some overlay_cmd) 2 [''t'', ''--color''] 1
         w0 True True []
     = (CARGS_ERR_GROUP, 1,
        \<lparr>user = [''jobs=4'', ''format=yaml'', ''color=on'', ''color''],
         events = [CallCb (Some ''jobs'') (CHR ''j'') (Some ''4''),
                   CallCb (Some ''format'') (CHR ''f'') (Some ''yaml''),
                   CallCb (Some ''color'') (CHR ''C'') (Some ''on''),
                   CallCb (Some ''color'') (CHR ''C'') None]\<rparr>)"
    by (subst F3, subst C4 [OF h3], code_simp)
  have g: "cargs_scan ?e (Some overlay_cmd) 4 [''t'', ''-j'', ''2'', ''-VC''] True True [] 3
         \<lparr>user = [''jobs=4'', ''format=yaml'', ''color=on'', ''jobs=2''], events = []\<rparr> (snd ?ov)
     = Next 4
         \<lparr>user = [''jobs=4'', ''format=yaml'', ''color=on'', ''jobs=2'', ''verbose'', ''color''],
          events = [CallCb (Some ''verbose'') (CHR ''V'') None,
                    CallCb (Some ''color'') (CHR ''C'') None]\<rparr>
         ((snd ?ov)[2 := 2])"
    by (subst C5 [OF h4], code_simp)
  show ?thesis
    using a b c d e f g by simp
qed

subsection \<open>Byte sizes\<close>

lemma toupper_nul: "toupper c = CHR 0x00 \<longleftrightarrow> c = CHR 0x00"
  by (simp add: toupper_def)

lemma toupper_blank: "is_blank (toupper c) = is_blank c"
  by (simp add: toupper_def is_blank_def)

lemma toupper_cstr: "toupper (cstr_at e i) = cstr_at (map toupper e) i"
  by (simp add: cstr_at_def toupper_def)

lemma spec_unit_cases:
  assumes "spec_unit suf = Some u"
  shows "(suf, u) \<in> set
     [(''B'', (0, False)),
      (''K'', (1, False)), (''KB'', (1, False)), (''KI'', (1, True)), (''KIB'', (1, True)),
      (''M'', (2, False)), (''MB'', (2, False)), (''MI'', (2, True)), (''MIB'', (2, True)),
      (''G'', (3, False)), (''GB'', (3, False)), (''GI'', (3, True)), (''GIB'', (3, True)),
      (''T'', (4, False)), (''TB'', (4, False)), (''TI'', (4, True)), (''TIB'', (4, True)),
      (''P'', (5, False)), (''PB'', (5, False)), (''PI'', (5, True)), (''PIB'', (5, True)),
      (''E'', (6, False)), (''EB'', (6, False)), (''EI'', (6, True)), (''EIB'', (6, True))]"
  using assms
  by (auto simp: spec_unit_def unit_power_def split: list.splits if_splits)

lemma unit_table:
  "list_all (\<lambda>(suf, u). list_all (\<lambda>iec.
       size_unit iec (cstr_at suf 0) (cstr_at suf (Suc 0)) (cstr_at suf 2)
         = Some (double_of_int (spec_mult iec u), length suf)) [True, False])
     [(''B'', (0, False)),
      (''K'', (1, False)), (''KB'', (1, False)), (''KI'', (1, True)), (''KIB'', (1, True)),
      (''M'', (2, False)), (''MB'', (2, False)), (''MI'', (2, True)), (''MIB'', (2, True)),
      (''G'', (3, False)), (''GB'', (3, False)), (''GI'', (3, True)), (''GIB'', (3, True)),
      (''T'', (4, False)), (''TB'', (4, False)), (''TI'', (4, True)), (''TIB'', (4, True)),
      (''P'', (5, False)), (''PB'', (5, False)), (''PI'', (5, True)), (''PIB'', (5, True)),
      (''E'', (6, False)), (''EB'', (6, False)), (''EI'', (6, True)), (''EIB'', (6, True))]"
  by code_simp

lemma unit_accept:
  assumes "spec_unit suf = Some u"
  shows "size_unit iec (cstr_at suf 0) (cstr_at suf (Suc 0)) (cstr_at suf 2)
           = Some (double_of_int (spec_mult iec u), length suf)"
proof -
  have "iec \<in> set [True, False]" by (cases iec) simp_all
  with spec_unit_cases [OF assms] unit_table show ?thesis
    unfolding list_all_iff by blast
qed


lemma unit_reject:
  assumes u: "size_unit iec (cstr_at suf 0) (cstr_at suf (Suc 0)) (cstr_at suf 2) = Some (m, step)"
    and nul: "CHR 0x00 \<notin> set suf" and ne: "suf \<noteq> []"
  shows "spec_unit (take step suf) \<noteq> None \<and> take step suf \<noteq> []
         \<and> \<not> is_blank (last (take step suf))
         \<and> (last (take step suf) = CHR ''I'' \<longrightarrow> length suf \<le> step)"
proof -
  consider (one) a where "suf = [a]" | (two) a b where "suf = [a, b]"
    | (more) a b c t where "suf = a # b # c # t"
  proof (cases suf)
    case Nil
    with ne show ?thesis by simp
  next
    case (Cons a r)
    show ?thesis
    proof (cases r)
      case Nil
      with Cons show ?thesis using that(1) by simp
    next
      case (Cons b r')
      with \<open>suf = a # r\<close> show ?thesis using that(2,3) by (cases r') simp_all
    qed
  qed
  then show ?thesis
  proof cases
    case one
    have c: "cstr_at suf 0 = a" "cstr_at suf (Suc 0) = CHR 0x00" "cstr_at suf 2 = CHR 0x00"
      by (simp_all add: one cstr_at_def)
    have st: "unit_step (CHR 0x00) (CHR 0x00) = 1" by (simp add: unit_step_def)
    from u show ?thesis
      unfolding c st size_unit_def Let_def
      by (auto simp: one spec_unit_def unit_power_def is_blank_def split: if_splits)
  next
    case two
    have c: "cstr_at suf 0 = a" "cstr_at suf (Suc 0) = b" "cstr_at suf 2 = CHR 0x00"
      by (simp_all add: two cstr_at_def)
    have st: "unit_step b (CHR 0x00) = (if b = CHR ''I'' \<or> b = CHR ''B'' then 2 else 1)"
      by (simp add: unit_step_def)
    from u show ?thesis
      unfolding c st size_unit_def Let_def
      by (auto simp: two spec_unit_def unit_power_def is_blank_def split: if_splits)
  next
    case more
    have c: "cstr_at suf 0 = a" "cstr_at suf (Suc 0) = b" "cstr_at suf 2 = c"
      by (simp_all add: more cstr_at_def)
    have c0: "c \<noteq> CHR 0x00" using nul more by auto
    have st: "unit_step b c = (if b = CHR ''I'' \<and> c = CHR ''B'' then 3
                               else if b = CHR ''B'' then 2 else 1)"
      using c0 by (simp add: unit_step_def)
    from u show ?thesis
      unfolding c st size_unit_def Let_def
      by (auto simp: more spec_unit_def unit_power_def is_blank_def split: if_splits)
  qed
qed


lemma strip_blanks_append:
  assumes "list_all is_blank bs" and "xs \<noteq> []" and "\<not> is_blank (last xs)"
  shows "strip_blanks (xs @ bs) = xs"
proof -
  have "dropWhile is_blank (rev bs @ rev xs) = dropWhile is_blank (rev xs)"
    using assms(1) by (intro dropWhile_append2) (simp add: list_all_iff)
  moreover have "dropWhile is_blank (rev xs) = rev xs"
  proof (cases "rev xs")
    case Nil
    then show ?thesis by simp
  next
    case (Cons y ys)
    then have "xs = rev ys @ [y]" by simp
    then have "last xs = y" by simp
    with assms(3) Cons show ?thesis by simp
  qed
  ultimately show ?thesis by (simp add: strip_blanks_def)
qed

lemma cstr_at_nul_free:
  "CHR 0x00 \<notin> set e \<Longrightarrow> cstr_at e 0 = CHR 0x00 \<longleftrightarrow> e = []"
  by (cases e) (auto simp: cstr_at_def)

lemma nul_free_rest:
  assumes "CHR 0x00 \<notin> set e"
  shows "CHR 0x00 \<notin> set (dropWhile P (drop k e))"
proof
  assume "CHR 0x00 \<in> set (dropWhile P (drop k e))"
  then have "CHR 0x00 \<in> set (drop k e)" by (rule set_dropWhileD)
  then have "CHR 0x00 \<in> set e" by (rule in_set_dropD)
  with assms show False by simp
qed

lemma cstr_at_Nil: "cstr_at [] i = CHR 0x00"
  by (simp add: cstr_at_def)

lemma spec_unit_first:
  assumes "spec_unit suf = Some u"
  shows "cstr_at suf 0 \<noteq> CHR 0x00"
  using spec_unit_cases [OF assms] by (auto simp: cstr_at_def)

lemma strip_blanks_split:
  "\<exists>bl. xs = strip_blanks xs @ bl \<and> list_all is_blank bl"
proof -
  have "strip_blanks xs @ rev (takeWhile is_blank (rev xs))
        = rev (takeWhile is_blank (rev xs) @ dropWhile is_blank (rev xs))"
    unfolding strip_blanks_def by (simp only: rev_append)
  also have "\<dots> = xs" by (simp only: takeWhile_dropWhile_id rev_rev_ident)
  finally have "xs = strip_blanks xs @ rev (takeWhile is_blank (rev xs))" by (rule sym)
  moreover have "list_all is_blank (rev (takeWhile is_blank (rev xs)))"
    by (auto simp: list_all_iff dest: set_takeWhileD)
  ultimately show ?thesis by blast
qed

lemma size_unit_other_second:
  "b \<noteq> CHR ''I'' \<Longrightarrow> b \<noteq> CHR ''B'' \<Longrightarrow>
   size_unit iec a b c = size_unit iec a (CHR 0x00) (CHR 0x00)"
  by (simp add: size_unit_def unit_step_def Let_def)

lemma size_unit_blank_second:
  "is_blank b \<Longrightarrow> size_unit iec a b c = size_unit iec a (CHR 0x00) (CHR 0x00)"
  by (rule size_unit_other_second) (auto simp: is_blank_def)

lemma size_unit_B_second:
  "size_unit iec a (CHR ''B'') c = size_unit iec a (CHR ''B'') (CHR 0x00)"
  by (simp add: size_unit_def unit_step_def Let_def)

lemma size_unit_pad:
  assumes sp: "spec_unit U = Some u" and bl: "list_all is_blank bl"
    and ok: "bl = [] \<or> last U \<noteq> CHR ''I''"
  shows "size_unit iec (cstr_at (U @ bl) 0) (cstr_at (U @ bl) (Suc 0)) (cstr_at (U @ bl) 2)
       = size_unit iec (cstr_at U 0) (cstr_at U (Suc 0)) (cstr_at U 2)"
proof (cases bl)
  case Nil
  then show ?thesis by simp
next
  case (Cons b bs)
  have b: "is_blank b" using bl Cons by simp
  have li: "last U \<noteq> CHR ''I''" using ok Cons by simp
  consider (one) l where "U = [l]" | (two) l where "U = [l, CHR ''B'']"
    | (three) l x y where "U = [l, x, y]"
  proof (cases U)
    case Nil
    with sp show ?thesis by (simp add: spec_unit_def)
  next
    case U1: (Cons l r)
    show ?thesis
    proof (cases r)
      case Nil
      with U1 that(1) show ?thesis by simp
    next
      case U2: (Cons x r2)
      show ?thesis
      proof (cases r2)
        case Nil
        have "x = CHR ''B''"
          using sp li unfolding U1 U2 Nil by (simp add: spec_unit_def split: if_splits)
        with U1 U2 Nil that(2) show ?thesis by simp
      next
        case U3: (Cons y r3)
        show ?thesis
        proof (cases r3)
          case Nil
          with U1 U2 U3 that(3) show ?thesis by simp
        next
          case (Cons z r4)
          with sp U1 U2 U3 show ?thesis by (simp add: spec_unit_def)
        qed
      qed
    qed
  qed
  then show ?thesis
  proof cases
    case one
    show ?thesis
      unfolding one Cons by (simp add: cstr_at_def size_unit_blank_second [OF b])
  next
    case two
    show ?thesis
      unfolding two Cons
      by (simp add: cstr_at_def size_unit_B_second [of iec l b])
  next
    case three
    show ?thesis unfolding three by (simp add: cstr_at_def)
  qed
qed

lemma blanks_upper:
  "list_all is_blank (map toupper xs) = list_all is_blank xs"
  by (simp add: list_all_iff toupper_blank)

lemma read_size_accept:
  assumes st: "strtod s = (v, n)" and n: "0 < n" and s: "s \<noteq> []"
    and suf: "suf = map toupper (dropWhile is_blank (drop n s))"
    and sp: "spec_unit (strip_blanks suf) = Some u"
    and ok: "strip_blanks suf = suf \<or> last (strip_blanks suf) \<noteq> CHR ''I''"
  shows "cargs_read_size strtod s iec = size_finish (dmul v (double_of_int (spec_mult iec u)))"
proof -
  define e where "e = dropWhile is_blank (drop n s)"
  define U where "U = strip_blanks suf"
  obtain bl where split: "suf = U @ bl" and bl: "list_all is_blank bl"
    unfolding U_def using strip_blanks_split by blast
  have ue: "map toupper e = U @ bl" using split unfolding suf e_def by simp
  have ok': "bl = [] \<or> last U \<noteq> CHR ''I''"
    using ok split unfolding U_def [symmetric] by auto
  have spU: "spec_unit U = Some u" using sp unfolding U_def .
  have "cstr_at (U @ bl) 0 = cstr_at U 0"
    using spec_unit_cases [OF spU] by (auto simp: cstr_at_def)
  then have "cstr_at (map toupper e) 0 \<noteq> CHR 0x00"
    using spec_unit_first [OF spU] unfolding ue by simp
  then have first: "cstr_at e 0 \<noteq> CHR 0x00"
    unfolding toupper_cstr [symmetric] by (simp add: toupper_nul)
  have one: "Suc 0 = 1" by simp
  have unit: "size_unit iec (toupper (cstr_at e 0)) (toupper (cstr_at e 1)) (toupper (cstr_at e 2))
         = Some (double_of_int (spec_mult iec u), length U)"
    unfolding toupper_cstr ue one [symmetric] size_unit_pad [OF spU bl ok']
    by (rule unit_accept [OF spU])
  have "map toupper (drop (length U) e) = bl"
    unfolding drop_map [symmetric] ue by simp
  then have "list_all is_blank (drop (length U) e)"
    using bl blanks_upper [of "drop (length U) e"] by simp
  then have "dropWhile is_blank (drop (length U) e) = []"
    by (simp add: list_all_iff)
  then have rest: "cstr_at (dropWhile is_blank (drop (length U) e)) 0 = CHR 0x00"
    by (simp only: cstr_at_Nil)
  show ?thesis
    unfolding cargs_read_size_def st Let_def
    using n s first [unfolded e_def] unit [unfolded e_def] rest [unfolded e_def] by simp
qed

lemma reject_core:
  assumes unit: "size_unit iec (toupper (cstr_at e 0)) (toupper (cstr_at e 1)) (toupper (cstr_at e 2))
       = Some (m, step)"
    and rest: "cstr_at (dropWhile is_blank (drop step e)) 0 = CHR 0x00"
    and nul: "CHR 0x00 \<notin> set e" and ne: "e \<noteq> []"
  shows "spec_unit (strip_blanks (map toupper e)) \<noteq> None
       \<and> (strip_blanks (map toupper e) = map toupper e
           \<or> last (strip_blanks (map toupper e)) \<noteq> CHR ''I'')"
proof -
  let ?u = "map toupper e"
  have nul_u: "CHR 0x00 \<notin> set ?u"
  proof
    assume "CHR 0x00 \<in> set ?u"
    then obtain x where "x \<in> set e" "toupper x = CHR 0x00" by auto
    then show False using nul toupper_nul [of x] by simp
  qed
  have ne_u: "?u \<noteq> []" using ne by simp
  have nul_r: "CHR 0x00 \<notin> set (dropWhile is_blank (drop step e))"
    using nul by (rule nul_free_rest)
  have emp: "dropWhile is_blank (drop step e) = []"
    using rest cstr_at_nul_free [OF nul_r] by blast
  have b1: "\<forall>x\<in>set (drop step e). is_blank x"
    using emp unfolding dropWhile_eq_Nil_conv .
  have blanks: "list_all is_blank (drop step ?u)"
    unfolding drop_map list_all_iff using b1 toupper_blank by auto
  have one: "Suc 0 = 1" by simp
  have unit': "size_unit iec (cstr_at ?u 0) (cstr_at ?u (Suc 0)) (cstr_at ?u 2) = Some (m, step)"
    using unit unfolding toupper_cstr one .
  note r = unit_reject [OF unit' nul_u ne_u]
  have r1: "spec_unit (take step ?u) \<noteq> None" and r2: "take step ?u \<noteq> []"
    and r3: "\<not> is_blank (last (take step ?u))"
    and r4: "last (take step ?u) = CHR ''I'' \<longrightarrow> length ?u \<le> step"
    using r by blast+
  have "strip_blanks (take step ?u @ drop step ?u) = take step ?u"
    using blanks r2 r3 by (rule strip_blanks_append)
  then have sb: "strip_blanks ?u = take step ?u"
    unfolding append_take_drop_id .
  have "take step ?u = ?u" if "last (take step ?u) = CHR ''I''"
    using r4 that by simp
  then show ?thesis unfolding sb using r1 by blast
qed

lemma read_size_reject:
  assumes st: "strtod s = (v, n)" and n: "0 < n" and s: "s \<noteq> []"
    and suf: "suf = map toupper (dropWhile is_blank (drop n s))"
    and ne: "suf \<noteq> []" and nul: "CHR 0x00 \<notin> set s"
    and sp: "spec_unit (strip_blanks suf) = None
             \<or> strip_blanks suf \<noteq> suf \<and> last (strip_blanks suf) = CHR ''I''"
  shows "cargs_read_size strtod s iec = SizeFail"
proof -
  define e where "e = dropWhile is_blank (drop n s)"
  have nul_e: "CHR 0x00 \<notin> set e"
    unfolding e_def using nul by (rule nul_free_rest)
  have e_ne: "e \<noteq> []" using ne unfolding suf e_def by simp
  have first: "cstr_at e 0 \<noteq> CHR 0x00"
    using e_ne cstr_at_nul_free [OF nul_e] by blast
  have rs: "cargs_read_size strtod s iec =
      (case size_unit iec (toupper (cstr_at e 0)) (toupper (cstr_at e 1)) (toupper (cstr_at e 2)) of
         None \<Rightarrow> SizeFail
       | Some (mult, step) \<Rightarrow>
           if cstr_at (dropWhile is_blank (drop step e)) 0 \<noteq> CHR 0x00 then SizeFail
           else size_finish (dmul v mult))"
    unfolding cargs_read_size_def st Let_def e_def using n s first [unfolded e_def] by simp
  show ?thesis
  proof (cases "size_unit iec (toupper (cstr_at e 0)) (toupper (cstr_at e 1)) (toupper (cstr_at e 2))")
    case None
    show ?thesis unfolding rs None by simp
  next
    case (Some p)
    obtain m step where p: "p = (m, step)" by (cases p)
    show ?thesis
    proof (cases "cstr_at (dropWhile is_blank (drop step e)) 0 = CHR 0x00")
      case True
      have "spec_unit (strip_blanks (map toupper e)) \<noteq> None
       \<and> (strip_blanks (map toupper e) = map toupper e
           \<or> last (strip_blanks (map toupper e)) \<noteq> CHR ''I'')"
        using Some [unfolded p] True nul_e e_ne by (rule reject_core)
      with sp show ?thesis unfolding suf e_def by blast
    next
      case False
      show ?thesis unfolding rs Some p using False by simp
    qed
  qed
qed

lemma read_size_bare:
  assumes st: "strtod s = (v, n)" and n: "0 < n" and s: "s \<noteq> []"
    and suf: "map toupper (dropWhile is_blank (drop n s)) = []"
  shows "cargs_read_size strtod s iec = size_finish (dmul v (Fin 1 0))"
proof -
  have "dropWhile is_blank (drop n s) = []" using suf by (simp only: map_is_Nil_conv)
  then have "cstr_at (dropWhile is_blank (drop n s)) 0 = CHR 0x00" by (simp only: cstr_at_Nil)
  then show ?thesis
    unfolding cargs_read_size_def st Let_def using n s by simp
qed


text \<open>
  C8, as amended. Let \<^verbatim>\<open>strtod\<close> read a literal of value \<open>v\<close> from the first \<open>n > 0\<close>
  characters of the string (a C string: no NUL inside), let \<open>suf\<close> be what follows the
  literal and the blanks behind it, in upper case, and \<open>sfx\<close> be \<open>suf\<close> without its
  trailing blanks. With nothing behind the literal the result is that of \<open>v * 1.0\<close>.
  When \<open>sfx\<close> is a unit suffix, that is \<^verbatim>\<open>B\<close> (power 0) or one of \<^verbatim>\<open>K\<close>, \<^verbatim>\<open>M\<close>, \<^verbatim>\<open>G\<close>, \<^verbatim>\<open>T\<close>,
  \<^verbatim>\<open>P\<close>, \<^verbatim>\<open>E\<close> (powers 1 to 6) optionally followed by \<^verbatim>\<open>I\<close>, optionally followed by \<^verbatim>\<open>B\<close>,
  and no blank follows a suffix that ends in \<^verbatim>\<open>I\<close>, the result is that of \<open>v\<close> times
  the radix to the power of the unit: the radix is 1024 when the \<^verbatim>\<open>I\<close> is there,
  whatever the caller prefers, and otherwise the caller's, 1024 for
  \<^verbatim>\<open>cargs_read_size_iec\<close> and 1000 for \<^verbatim>\<open>cargs_read_size_si\<close>; the \<^verbatim>\<open>B\<close> changes nothing. In
  every other case the parse fails. The result of a product is what the range check
  and the rounding at the end of \<^verbatim>\<open>cargs_read_size\<close> make of it. When \<^verbatim>\<open>strtod\<close> reads 128
  from the first three characters of \<^verbatim>\<open>128MiB\<close>, \<^verbatim>\<open>cargs_read_size_iec\<close> yields 134217728;
  when it reads 5 from the first character of \<^verbatim>\<open>5MB\<close>, \<^verbatim>\<open>cargs_read_size_si\<close> yields
  5000000.
\<close>

theorem size_suffix_radix:
  "(strtod s = (v, n) \<and> 0 < n \<and> s \<noteq> [] \<and> CHR 0x00 \<notin> set s
      \<and> suf = map toupper (dropWhile is_blank (drop n s)) \<and> sfx = strip_blanks suf
    \<longrightarrow> (suf = [] \<longrightarrow> cargs_read_size strtod s iec = size_finish (dmul v (Fin 1 0)))
      \<and> (spec_unit sfx = Some (k, forced) \<and> (sfx = suf \<or> last sfx \<noteq> CHR ''I'')
          \<longrightarrow> cargs_read_size strtod s iec =
                size_finish (dmul v (double_of_int ((if forced \<or> iec then 1024 else 1000) ^ k))))
      \<and> (suf \<noteq> [] \<and> (spec_unit sfx = None \<or> sfx \<noteq> suf \<and> last sfx = CHR ''I'')
          \<longrightarrow> cargs_read_size strtod s iec = SizeFail))
   \<and> cargs_read_size_si strtod s = cargs_read_size strtod s False
   \<and> cargs_read_size_iec strtod s = cargs_read_size strtod s True
   \<and> (strtod ''128MiB'' = (double_of_int 128, 3)
       \<longrightarrow> cargs_read_size_iec strtod ''128MiB'' = SizeOk 134217728)
   \<and> (strtod ''5MB'' = (double_of_int 5, 1)
       \<longrightarrow> cargs_read_size_si strtod ''5MB'' = SizeOk 5000000)"
proof -
  have general: "(suf = [] \<longrightarrow> cargs_read_size strtod s iec = size_finish (dmul v (Fin 1 0)))
      \<and> (spec_unit sfx = Some (k, forced) \<and> (sfx = suf \<or> last sfx \<noteq> CHR ''I'')
          \<longrightarrow> cargs_read_size strtod s iec =
                size_finish (dmul v (double_of_int ((if forced \<or> iec then 1024 else 1000) ^ k))))
      \<and> (suf \<noteq> [] \<and> (spec_unit sfx = None \<or> sfx \<noteq> suf \<and> last sfx = CHR ''I'')
          \<longrightarrow> cargs_read_size strtod s iec = SizeFail)"
    if h: "strtod s = (v, n)" "0 < n" "s \<noteq> []" "CHR 0x00 \<notin> set s"
      "suf = map toupper (dropWhile is_blank (drop n s))" "sfx = strip_blanks suf"
  proof (intro conjI impI)
    assume "suf = []"
    then have "map toupper (dropWhile is_blank (drop n s)) = []" using h(5) by simp
    then show "cargs_read_size strtod s iec = size_finish (dmul v (Fin 1 0))"
      by (rule read_size_bare [where strtod = strtod and s = s, OF h(1,2,3)])
  next
    assume a: "spec_unit sfx = Some (k, forced) \<and> (sfx = suf \<or> last sfx \<noteq> CHR ''I'')"
    have sp: "spec_unit (strip_blanks suf) = Some (k, forced)" using a h(6) by simp
    have ok: "strip_blanks suf = suf \<or> last (strip_blanks suf) \<noteq> CHR ''I''"
      using a h(6) by simp
    show "cargs_read_size strtod s iec =
                size_finish (dmul v (double_of_int ((if forced \<or> iec then 1024 else 1000) ^ k)))"
      using read_size_accept [where strtod = strtod and s = s and iec = iec, OF h(1,2,3,5) sp ok]
      by (simp add: spec_mult_def)
  next
    assume a: "suf \<noteq> [] \<and> (spec_unit sfx = None \<or> sfx \<noteq> suf \<and> last sfx = CHR ''I'')"
    have ne: "suf \<noteq> []" using a by simp
    have sp: "spec_unit (strip_blanks suf) = None
             \<or> strip_blanks suf \<noteq> suf \<and> last (strip_blanks suf) = CHR ''I''"
      using a h(6) by simp
    show "cargs_read_size strtod s iec = SizeFail"
      by (rule read_size_reject [where strtod = strtod and s = s, OF h(1,2,3,5) ne h(4) sp])
  qed
  have iec128: "cargs_read_size_iec strtod ''128MiB'' = SizeOk 134217728"
    if h: "strtod ''128MiB'' = (double_of_int 128, 3)"
  proof -
    have suf: "''MIB'' = map toupper (dropWhile is_blank (drop 3 ''128MiB''))" by code_simp
    have sp: "spec_unit (strip_blanks ''MIB'') = Some (2, True)" by code_simp
    have ok: "strip_blanks ''MIB'' = ''MIB'' \<or> last (strip_blanks ''MIB'') \<noteq> CHR ''I''" by code_simp
    have r: "size_finish (dmul (double_of_int 128) (double_of_int (spec_mult True (2, True))))
             = SizeOk 134217728"
      by code_simp
    have p: "0 < (3::nat)" "''128MiB'' \<noteq> []" by simp_all
    show ?thesis
      unfolding cargs_read_size_iec_def
        read_size_accept [where strtod = strtod and s = "''128MiB''", OF h p suf sp ok]
      by (rule r)
  qed
  have si5: "cargs_read_size_si strtod ''5MB'' = SizeOk 5000000"
    if h: "strtod ''5MB'' = (double_of_int 5, 1)"
  proof -
    have suf: "''MB'' = map toupper (dropWhile is_blank (drop 1 ''5MB''))" by code_simp
    have sp: "spec_unit (strip_blanks ''MB'') = Some (2, False)" by code_simp
    have ok: "strip_blanks ''MB'' = ''MB'' \<or> last (strip_blanks ''MB'') \<noteq> CHR ''I''" by code_simp
    have r: "size_finish (dmul (double_of_int 5) (double_of_int (spec_mult False (2, False))))
             = SizeOk 5000000"
      by code_simp
    have p: "0 < (1::nat)" "''5MB'' \<noteq> []" by simp_all
    show ?thesis
      unfolding cargs_read_size_si_def
        read_size_accept [where strtod = strtod and s = "''5MB''", OF h p suf sp ok]
      by (rule r)
  qed
  show ?thesis
    using general iec128 si5
    by (simp add: cargs_read_size_si_def cargs_read_size_iec_def)
qed

theorem size_suffix_radix_witness:
  "cargs_read_size_iec digits_strtod ''128MiB'' = SizeOk 134217728
   \<and> cargs_read_size_si digits_strtod ''5MB'' = SizeOk 5000000
   \<and> cargs_read_size_si digits_strtod ''5 kb '' = SizeOk 5000
   \<and> cargs_read_size_iec digits_strtod ''5 kb '' = SizeOk 5120
   \<and> cargs_read_size_si digits_strtod ''5Ki'' = SizeOk 5120
   \<and> cargs_read_size_si digits_strtod ''5Ki '' = SizeFail
   \<and> cargs_read_size_si digits_strtod ''5KBs'' = SizeFail"
proof -
  note T = size_suffix_radix [where strtod = digits_strtod]
  have a: "digits_strtod ''128MiB'' = (double_of_int 128, 3)"
    and b: "digits_strtod ''5MB'' = (double_of_int 5, 1)"
    by code_simp+
  note G = T [THEN conjunct1, rule_format]
  have h1: "digits_strtod ''5 kb '' = (double_of_int 5, 1) \<and> 0 < (1::nat) \<and> ''5 kb '' \<noteq> []
      \<and> CHR 0x00 \<notin> set ''5 kb ''
      \<and> ''KB '' = map toupper (dropWhile is_blank (drop 1 ''5 kb ''))
      \<and> ''KB'' = strip_blanks ''KB ''"
    by code_simp
  have h2: "digits_strtod ''5Ki'' = (double_of_int 5, 1) \<and> 0 < (1::nat) \<and> ''5Ki'' \<noteq> []
      \<and> CHR 0x00 \<notin> set ''5Ki''
      \<and> ''KI'' = map toupper (dropWhile is_blank (drop 1 ''5Ki''))
      \<and> ''KI'' = strip_blanks ''KI''"
    by code_simp
  have h3: "digits_strtod ''5Ki '' = (double_of_int 5, 1) \<and> 0 < (1::nat) \<and> ''5Ki '' \<noteq> []
      \<and> CHR 0x00 \<notin> set ''5Ki ''
      \<and> ''KI '' = map toupper (dropWhile is_blank (drop 1 ''5Ki ''))
      \<and> ''KI'' = strip_blanks ''KI ''"
    by code_simp
  have h4: "digits_strtod ''5KBs'' = (double_of_int 5, 1) \<and> 0 < (1::nat) \<and> ''5KBs'' \<noteq> []
      \<and> CHR 0x00 \<notin> set ''5KBs''
      \<and> ''KBS'' = map toupper (dropWhile is_blank (drop 1 ''5KBs''))
      \<and> ''KBS'' = strip_blanks ''KBS''"
    by code_simp
  have u1: "spec_unit ''KB'' = Some (1, False) \<and> (''KB'' = ''KB '' \<or> last ''KB'' \<noteq> CHR ''I'')"
    and u2: "spec_unit ''KI'' = Some (1, True) \<and> (''KI'' = ''KI'' \<or> last ''KI'' \<noteq> CHR ''I'')"
    and u3: "''KI '' \<noteq> [] \<and> (spec_unit ''KI'' = None \<or> ''KI'' \<noteq> ''KI '' \<and> last ''KI'' = CHR ''I'')"
    and u4: "''KBS'' \<noteq> [] \<and> (spec_unit ''KBS'' = None \<or> ''KBS'' \<noteq> ''KBS'' \<and> last ''KBS'' = CHR ''I'')"
    by code_simp+
  have v: "size_finish (dmul (double_of_int 5) (double_of_int ((if False \<or> False then 1024 else 1000) ^ 1)))
             = SizeOk 5000"
    "size_finish (dmul (double_of_int 5) (double_of_int ((if False \<or> True then 1024 else 1000) ^ 1)))
             = SizeOk 5120"
    "size_finish (dmul (double_of_int 5) (double_of_int ((if True \<or> False then 1024 else 1000) ^ 1)))
             = SizeOk 5120"
    by code_simp+
  have c1: "cargs_read_size digits_strtod ''5 kb '' False = SizeOk 5000"
    using G [OF h1, THEN conjunct2, THEN conjunct1, rule_format, OF u1, of False] v by simp
  have c2: "cargs_read_size digits_strtod ''5 kb '' True = SizeOk 5120"
    using G [OF h1, THEN conjunct2, THEN conjunct1, rule_format, OF u1, of True] v by simp
  have c3: "cargs_read_size digits_strtod ''5Ki'' False = SizeOk 5120"
    using G [OF h2, THEN conjunct2, THEN conjunct1, rule_format, OF u2, of False] v by simp
  have c4: "cargs_read_size digits_strtod ''5Ki '' False = SizeFail"
    using G [OF h3, THEN conjunct2, THEN conjunct2, rule_format, OF u3] by simp
  have c5: "cargs_read_size digits_strtod ''5KBs'' False = SizeFail"
    using G [OF h4, THEN conjunct2, THEN conjunct2, rule_format, OF u4] by simp
  have si: "cargs_read_size_si digits_strtod x = cargs_read_size digits_strtod x False"
    and ie: "cargs_read_size_iec digits_strtod x = cargs_read_size digits_strtod x True" for x
    using T [where s = x] by blast+
  have e1: "cargs_read_size_iec digits_strtod ''128MiB'' = SizeOk 134217728"
    using T a by blast
  have e2: "cargs_read_size_si digits_strtod ''5MB'' = SizeOk 5000000"
    using T b by blast
  show ?thesis
    unfolding si ie using e1 [unfolded ie] e2 [unfolded si] c1 c2 c3 c4 c5 by simp
qed

text \<open>
  C8 as stated fails for blanks behind the suffix: they are trailing content other
  than the unit letter, \<^verbatim>\<open>i\<close> and \<^verbatim>\<open>B\<close>, and the parse succeeds, because the loop that
  skips blanks runs a second time behind the suffix.
\<close>

theorem size_trailing_blank_counterexample:
  "cargs_read_size_si digits_strtod ''5K '' = SizeOk 5000
   \<and> cargs_read_size_iec digits_strtod ''128MiB  '' = SizeOk 134217728"
  by code_simp

end
